theory Spec2Isabelle
  imports Main "HOL-Library.Sublist"
begin

section \<open>Text\<close>

text \<open>
  Text is a \<^typ>\<open>string\<close>; one \<^typ>\<open>char\<close> stands for one UTF-16 code unit of a
  JavaScript string, in the range 0..255.  \<open>String.prototype.startsWith\<close> is the prefix
  test, \<open>s.slice(n)\<close> with \<open>n \<ge> 0\<close> is \<^term>\<open>drop n s\<close>.
\<close>

definition startsWith :: "string \<Rightarrow> string \<Rightarrow> bool" where
  "startsWith s p = prefix p s"

text \<open>\<open>String.prototype.toLowerCase\<close> on the code units 0..255: the letters A..Z and the
  Latin-1 capitals U+00C0..U+00DE (U+00D7, the multiplication sign, is no letter) move up
  by 32, everything else stays.\<close>

definition lower_char :: "char \<Rightarrow> char" where
  "lower_char c =
     (let n = (of_char c :: nat)
      in if (65 \<le> n \<and> n \<le> 90) \<or> (192 \<le> n \<and> n \<le> 222 \<and> n \<noteq> 215)
         then char_of (n + 32) else c)"

definition toLowerCase :: "string \<Rightarrow> string" where
  "toLowerCase s = map lower_char s"


section \<open>The keyboard shortcut matcher (src/hooks/useKeyboardShortcuts.ts)\<close>

text \<open>
  An optional flag \<open>ctrl?: boolean\<close> is a \<^typ>\<open>bool option\<close>: \<^term>\<open>None\<close> is
  \<open>undefined\<close>.  The \<open>description\<close> of a shortcut plays no part in dispatch and is left
  out; its \<open>handler\<close> is identified by the position of the shortcut in the registered list.
\<close>

record KeyboardShortcut =
  key :: string
  ctrl :: "bool option"
  shift :: "bool option"
  alt :: "bool option"
  meta :: "bool option"
  preventDefault :: "bool option"

record KeyboardEvent =
  event_key :: string
  ctrlKey :: bool
  shiftKey :: bool
  altKey :: bool
  metaKey :: bool

text \<open>What \<open>handleKeyDown\<close> reads of \<open>document.activeElement\<close>: its tag name and its
  \<open>contenteditable\<close> attribute (\<^term>\<open>None\<close> when the attribute is absent).  No active
  element at all is \<^term>\<open>None\<close> of the option around the record.\<close>

record Element =
  tagName :: string
  contenteditable :: "string option"

definition isInputField :: "Element option \<Rightarrow> bool" where
  "isInputField activeElement =
     (case activeElement of
        None \<Rightarrow> False
      | Some e \<Rightarrow> tagName e = ''INPUT'' \<or> tagName e = ''TEXTAREA''
                  \<or> contenteditable e = Some ''true'')"

text \<open>Truthiness of an optional boolean, for \<open>shortcut.ctrl || shortcut.meta\<close>.\<close>

definition truthy :: "bool option \<Rightarrow> bool" where
  "truthy f = (f = Some True)"

definition matchesKey :: "KeyboardEvent \<Rightarrow> KeyboardShortcut \<Rightarrow> bool" where
  "matchesKey event shortcut = (toLowerCase (event_key event) = toLowerCase (key shortcut))"

definition matchesCtrl :: "KeyboardEvent \<Rightarrow> KeyboardShortcut \<Rightarrow> bool" where
  "matchesCtrl event shortcut = (ctrl shortcut = None \<or> ctrl shortcut = Some (ctrlKey event))"

definition matchesShift :: "KeyboardEvent \<Rightarrow> KeyboardShortcut \<Rightarrow> bool" where
  "matchesShift event shortcut = (shift shortcut = None \<or> shift shortcut = Some (shiftKey event))"

definition matchesAlt :: "KeyboardEvent \<Rightarrow> KeyboardShortcut \<Rightarrow> bool" where
  "matchesAlt event shortcut = (alt shortcut = None \<or> alt shortcut = Some (altKey event))"

definition matchesMeta :: "KeyboardEvent \<Rightarrow> KeyboardShortcut \<Rightarrow> bool" where
  "matchesMeta event shortcut = (meta shortcut = None \<or> meta shortcut = Some (metaKey event))"

definition cmdOrCtrl :: "KeyboardEvent \<Rightarrow> bool" where
  "cmdOrCtrl event = (ctrlKey event \<or> metaKey event)"

definition matchesModifier :: "KeyboardEvent \<Rightarrow> KeyboardShortcut \<Rightarrow> bool" where
  "matchesModifier event shortcut =
     (if truthy (ctrl shortcut) \<or> truthy (meta shortcut)
      then cmdOrCtrl event \<and> matchesShift event shortcut \<and> matchesAlt event shortcut
      else matchesCtrl event shortcut \<and> matchesShift event shortcut
           \<and> matchesAlt event shortcut \<and> matchesMeta event shortcut)"

text \<open>The effects of one \<open>keydown\<close> event, in the order they happen: a call of
  \<open>event.preventDefault()\<close>, and the call of the handler of the shortcut at a position.\<close>

datatype effect = PreventDefault | Handler nat

text \<open>The \<open>for\<close> loop of \<open>handleKeyDown\<close>; \<open>i\<close> is the position of the head of the list
  that is still to be scanned.  \<open>continue\<close> is the recursive call, \<open>break\<close> ends the
  recursion.\<close>

fun scan :: "bool \<Rightarrow> KeyboardEvent \<Rightarrow> nat \<Rightarrow> KeyboardShortcut list \<Rightarrow> effect list" where
  "scan inField event i [] = []"
| "scan inField event i (shortcut # rest) =
     (if matchesKey event shortcut \<and> matchesModifier event shortcut
      then (if inField \<and> key shortcut \<noteq> ''Escape'' \<and> \<not> cmdOrCtrl event
            then scan inField event (Suc i) rest
            else (if preventDefault shortcut \<noteq> Some False then [PreventDefault] else [])
                 @ [Handler i])
      else scan inField event (Suc i) rest)"

definition handleKeyDown :: "Element option \<Rightarrow> KeyboardShortcut list \<Rightarrow> KeyboardEvent \<Rightarrow> effect list" where
  "handleKeyDown activeElement shortcuts event =
     scan (isInputField activeElement) event 0 shortcuts"

text \<open>Names for the two tests of the loop body, used to state its properties: a
  shortcut \<open>matches\<close> an event, a matching shortcut is \<open>suppressed\<close> in a field, and it
  \<open>fires\<close> when it matches and is not suppressed.\<close>

definition matches :: "KeyboardEvent \<Rightarrow> KeyboardShortcut \<Rightarrow> bool" where
  "matches event shortcut = (matchesKey event shortcut \<and> matchesModifier event shortcut)"

definition suppressed :: "bool \<Rightarrow> KeyboardEvent \<Rightarrow> KeyboardShortcut \<Rightarrow> bool" where
  "suppressed inField event shortcut =
     (inField \<and> key shortcut \<noteq> ''Escape'' \<and> \<not> cmdOrCtrl event)"

definition fires :: "bool \<Rightarrow> KeyboardEvent \<Rightarrow> KeyboardShortcut \<Rightarrow> bool" where
  "fires inField event shortcut =
     (matches event shortcut \<and> \<not> suppressed inField event shortcut)"

text \<open>The positions of the handlers called among the effects.\<close>

definition handlers :: "effect list \<Rightarrow> nat list" where
  "handlers es = concat (map (\<lambda>e. case e of Handler i \<Rightarrow> [i] | PreventDefault \<Rightarrow> []) es)"

text \<open>An effect as it reads when the list has one more shortcut in front.\<close>

definition bump :: "effect \<Rightarrow> effect" where
  "bump e = (case e of PreventDefault \<Rightarrow> PreventDefault | Handler i \<Rightarrow> Handler (Suc i))"

text \<open>Shortcuts, an element and events to run the matcher on.\<close>

abbreviation save_ctrl :: KeyboardShortcut where
  "save_ctrl \<equiv> \<lparr>key = ''s'', ctrl = Some True, shift = None, alt = None, meta = None,
     preventDefault = None\<rparr>"

abbreviation search_plain :: KeyboardShortcut where
  "search_plain \<equiv> \<lparr>key = ''k'', ctrl = None, shift = None, alt = None, meta = None,
     preventDefault = None\<rparr>"

abbreviation search_ctrl :: KeyboardShortcut where
  "search_ctrl \<equiv> \<lparr>key = ''k'', ctrl = Some True, shift = None, alt = None, meta = None,
     preventDefault = None\<rparr>"

abbreviation escape_lower :: KeyboardShortcut where
  "escape_lower \<equiv> \<lparr>key = ''escape'', ctrl = None, shift = None, alt = None, meta = None,
     preventDefault = None\<rparr>"

abbreviation escape_exact :: KeyboardShortcut where
  "escape_exact \<equiv> \<lparr>key = ''Escape'', ctrl = None, shift = None, alt = None, meta = None,
     preventDefault = None\<rparr>"

abbreviation input_element :: "Element option" where
  "input_element \<equiv> Some \<lparr>tagName = ''INPUT'', contenteditable = None\<rparr>"

abbreviation key_event :: "string \<Rightarrow> bool \<Rightarrow> bool \<Rightarrow> KeyboardEvent" where
  "key_event k c m \<equiv>
     \<lparr>event_key = k, ctrlKey = c, shiftKey = False, altKey = False, metaKey = m\<rparr>"


section \<open>Lines of a chunk\<close>

text \<open>\<open>s.split('\n')\<close>: the segments between the line feeds of \<open>s\<close>, never an empty
  array (the empty string gives one empty segment).  A character that is no line feed
  joins the first segment of what follows it.\<close>

fun split_newline :: "string \<Rightarrow> string list" where
  "split_newline [] = [[]]"
| "split_newline (c # cs) =
     (case split_newline cs of
        [] \<Rightarrow> [[c]]
      | seg # segs \<Rightarrow> if c = CHR 0x0A then [] # seg # segs else (c # seg) # segs)"


section \<open>The stream reader of the chat API (chatApi.streamMessage)\<close>

text \<open>
  The calls \<open>streamMessage\<close> makes of its three callbacks: \<open>onChunk(data)\<close>,
  \<open>onComplete()\<close> and \<open>onError(error)\<close>, an \<open>Error\<close> written as its message.  The
  model starts at the \<open>while (true)\<close> loop, once the response was \<open>ok\<close> and a reader was
  obtained; the transport is the list of the text chunks its reads deliver
  (\<open>decoder.decode(value, {stream: true})\<close> of each), followed by \<open>done\<close>.  A request or
  a read that fails is outside the model.
\<close>

datatype callback = OnChunk string | OnComplete | OnError string

text \<open>
  The callbacks belong to the caller, and every call of one is made inside the \<open>try\<close>
  of \<open>streamMessage\<close>.  What matters of a callback here is whether a call returns
  (\<^term>\<open>None\<close>) or throws (the message of what it throws), taken as a function of the
  argument of the call.
\<close>

record callbacks =
  onChunk :: "string \<Rightarrow> string option"
  onComplete :: "string option"
  onError :: "string \<Rightarrow> string option"

text \<open>How a part of the \<open>try\<close> block ends: the loop goes on, the function is over (by
  \<open>return\<close>, or by the \<open>break\<close> after which nothing follows), or an exception is on its
  way to the \<open>catch\<close>.\<close>

datatype exit = Continues | Returned | Threw string

text \<open>The end of a terminal call: the function is over unless the call threw.\<close>

definition after_call :: "string option \<Rightarrow> exit" where
  "after_call thrown = (case thrown of None \<Rightarrow> Returned | Some e \<Rightarrow> Threw e)"

text \<open>The \<open>for (const line of lines)\<close> loop over the lines of one chunk: the calls
  made, and how the loop ended.\<close>

fun for_lines :: "callbacks \<Rightarrow> string list \<Rightarrow> callback list \<times> exit" where
  "for_lines cb [] = ([], Continues)"
| "for_lines cb (line # rest) =
     (if startsWith line ''data: '' then
        (let data = drop 6 line in
         if data = ''[DONE]'' then ([OnComplete], after_call (onComplete cb))
         else if startsWith data ''[ERROR]'' then
           ([OnError (drop 8 data)], after_call (onError cb (drop 8 data)))
         else
           (case onChunk cb data of
              Some e \<Rightarrow> ([OnChunk data], Threw e)
            | None \<Rightarrow> (case for_lines cb rest of (es, x) \<Rightarrow> (OnChunk data # es, x))))
      else for_lines cb rest)"

text \<open>The \<open>while (true)\<close> loop, the body of the \<open>try\<close>: the end of the transport
  calls \<open>onComplete()\<close> and leaves the loop.\<close>

fun try_body :: "callbacks \<Rightarrow> string list \<Rightarrow> callback list \<times> exit" where
  "try_body cb [] = ([OnComplete], after_call (onComplete cb))"
| "try_body cb (chunk # rest) =
     (case for_lines cb (split_newline chunk) of
        (es, x) \<Rightarrow>
          (case x of
             Continues \<Rightarrow> (case try_body cb rest of (es', x') \<Rightarrow> (es @ es', x'))
           | Returned \<Rightarrow> (es, Returned)
           | Threw e \<Rightarrow> (es, Threw e)))"

text \<open>The function: what the \<open>try\<close> block throws, the \<open>catch\<close> hands to
  \<open>onError\<close>.\<close>

definition streamMessage :: "callbacks \<Rightarrow> string list \<Rightarrow> callback list" where
  "streamMessage cb chunks =
     (case try_body cb chunks of
        (es, x) \<Rightarrow>
          (case x of
             Continues \<Rightarrow> es
           | Returned \<Rightarrow> es
           | Threw e \<Rightarrow> es @ [OnError e]))"

definition terminal :: "callback \<Rightarrow> bool" where
  "terminal e = (case e of OnChunk d \<Rightarrow> False | OnComplete \<Rightarrow> True | OnError m \<Rightarrow> True)"

text \<open>Callbacks that never throw; \<open>quiet\<close> are three of them.\<close>

definition never_throws :: "callbacks \<Rightarrow> bool" where
  "never_throws cb =
     ((\<forall>d. onChunk cb d = None) \<and> onComplete cb = None \<and> (\<forall>m. onError cb m = None))"

abbreviation quiet :: callbacks where
  "quiet \<equiv> \<lparr>onChunk = (\<lambda>d. None), onComplete = None, onError = (\<lambda>m. None)\<rparr>"


section \<open>JSON values as JavaScript sees them\<close>

text \<open>
  The value \<open>JSON.parse\<close> returns.  A number is carried as the text JavaScript prints for
  it (\<open>String(n)\<close>); nothing here computes with numbers.  An object is the list of its
  members in source order; of members with one name the last one counts.  A \<open>jsval\<close> is
  any such value or \<open>undefined\<close> (\<^term>\<open>None\<close>).
\<close>

datatype json =
    JNull
  | JBool bool
  | JNum string
  | JStr string
  | JArr "json list"
  | JObj "(string \<times> json) list"

type_synonym jsval = "json option"

text \<open>Reading a property \<open>v.k\<close> of a value that is not \<open>null\<close>, for the names the
  stream consumer reads (\<open>type\<close>, \<open>content\<close>, \<open>tool_name\<close>, \<open>tool_args\<close>, \<open>result\<close>,
  \<open>error\<close>, \<open>file_path\<close>): a member of an object, \<open>undefined\<close> on every other value.\<close>

fun get_prop :: "json \<Rightarrow> string \<Rightarrow> jsval" where
  "get_prop (JObj members) k = map_of (rev members) k"
| "get_prop v k = None"

text \<open>\<open>Array.prototype.join\<close> with a comma.\<close>

fun join_comma :: "string list \<Rightarrow> string" where
  "join_comma [] = []"
| "join_comma [s] = s"
| "join_comma (s # t # ss) = s @ '','' @ join_comma (t # ss)"

text \<open>The string a JSON value becomes under \<open>+=\<close> on a string, in a template literal
  and in \<open>new Error(v)\<close>, or \<^term>\<open>None\<close> when the conversion throws a \<open>TypeError\<close>.
  An array joins its elements with commas (\<open>null\<close> elements as the empty string), and
  throws when an element does.  An object gives \<open>[object Object]\<close> through
  \<open>Object.prototype.toString\<close>, unless it has a member named \<open>toString\<close> of its own:
  that member, a JSON value, is not callable, \<open>valueOf\<close> returns no primitive, and the
  conversion throws.\<close>

fun to_str :: "json \<Rightarrow> string option" where
  "to_str JNull = Some ''null''"
| "to_str (JBool b) = Some (if b then ''true'' else ''false'')"
| "to_str (JNum n) = Some n"
| "to_str (JStr s) = Some s"
| "to_str (JArr vs) =
     map_option join_comma (those (map (\<lambda>v. if v = JNull then Some [] else to_str v) vs))"
| "to_str (JObj members) =
     (if ''toString'' \<in> set (map fst members) then None else Some ''[object Object]'')"

definition to_string :: "jsval \<Rightarrow> string option" where
  "to_string v = (case v of None \<Rightarrow> Some ''undefined'' | Some j \<Rightarrow> to_str j)"


section \<open>The stream consumer of the chat view (StreamingChatUI.handleSendMessage)\<close>

text \<open>
  The model is the \<open>while (true)\<close> loop of \<open>handleSendMessage\<close>, from the first read of
  the response body to the \<open>done\<close> of the transport, for a transport that delivers text
  chunks and then ends.  A request or a read that fails goes to the outer \<open>catch\<close>,
  which is outside the model.
\<close>

text \<open>A chat message; its \<open>timestamp\<close> (the clock at the time of the event) is left
  out.\<close>

datatype role = User | Assistant | Thinking | Tool

record ToolCall =
  name :: jsval
  args :: jsval
  result :: jsval

record Message =
  role :: role
  content :: string
  toolCall :: "ToolCall option"

text \<open>What the inner \<open>catch\<close> hands to \<open>console.error('Error parsing SSE data:', e)\<close>:
  the \<open>SyntaxError\<close> of \<open>JSON.parse\<close>, the \<open>TypeError\<close> of reading a property of
  \<open>null\<close> or of a conversion to text that fails, the \<open>Error\<close> thrown for an event of
  type \<open>error\<close>, with its message, or what the callback \<open>onFileModified\<close> threw.\<close>

datatype js_error = SyntaxError | TypeError | Error string

text \<open>
  \<open>setMessages\<close> is called with updater functions only, and React applies an updater
  when it next renders the component, not when the call is made.  The four updaters of
  the loop: appending the tool message built for a \<open>tool_call\<close>, storing \<open>data.result\<close>
  of a \<open>tool_result\<close>, and the two of \<open>done\<close>, which append a message whose content is
  the variable \<open>thinkingBuffer\<close>, or \<open>contentBuffer\<close>, of the enclosing function, read
  when the updater runs.
\<close>

datatype updater =
    AppendMessage Message
  | SetToolResult jsval
  | AppendThinking
  | AppendAssistant

text \<open>
  The variables of the read loop (\<open>buffer\<close>, \<open>thinkingBuffer\<close>, \<open>contentBuffer\<close>,
  \<open>inThinking\<close>, \<open>inAnswer\<close>), the component state (\<open>messages\<close> as React last
  rendered it, the updaters \<open>pending\<close> for it, and \<open>currentThinking\<close> and
  \<open>currentContent\<close>, which are set to values), the arguments of the calls of
  \<open>onFileModified\<close> and the errors logged to the console, each in order.
\<close>

record stream_state =
  buffer :: string
  thinkingBuffer :: string
  contentBuffer :: string
  inThinking :: bool
  inAnswer :: bool
  messages :: "Message list"
  pending :: "updater list"
  currentThinking :: string
  currentContent :: string
  fileModified :: "jsval list"
  console :: "js_error list"

text \<open>\<open>Array.prototype.findLastIndex\<close>; \<^term>\<open>None\<close> is \<open>-1\<close>.\<close>

definition findLastIndex :: "('a \<Rightarrow> bool) \<Rightarrow> 'a list \<Rightarrow> nat option" where
  "findLastIndex P xs =
     (case filter (\<lambda>i. P (xs ! i)) (rev [0..<length xs]) of
        [] \<Rightarrow> None
      | i # _ \<Rightarrow> Some i)"

text \<open>The updater of \<open>setMessages\<close> for a \<open>tool_result\<close> event.\<close>

definition set_tool_result :: "jsval \<Rightarrow> Message list \<Rightarrow> Message list" where
  "set_tool_result r prev =
     (case findLastIndex (\<lambda>m. role m = Tool) prev of
        None \<Rightarrow> prev
      | Some lastToolIndex \<Rightarrow>
          (case toolCall (prev ! lastToolIndex) of
             None \<Rightarrow> prev
           | Some tc \<Rightarrow>
               prev[lastToolIndex :=
                 (prev ! lastToolIndex)\<lparr>toolCall := Some (tc\<lparr>result := r\<rparr>)\<rparr>]))"

text \<open>An updater run on the messages \<open>prev\<close> while the variables of the loop are as in
  \<open>st\<close>.\<close>

definition run_updater :: "stream_state \<Rightarrow> updater \<Rightarrow> Message list \<Rightarrow> Message list" where
  "run_updater st u prev =
     (case u of
        AppendMessage m \<Rightarrow> prev @ [m]
      | SetToolResult r \<Rightarrow> set_tool_result r prev
      | AppendThinking \<Rightarrow>
          prev @ [\<lparr>role = Thinking, content = thinkingBuffer st, toolCall = None\<rparr>]
      | AppendAssistant \<Rightarrow>
          prev @ [\<lparr>role = Assistant, content = contentBuffer st, toolCall = None\<rparr>])"

text \<open>React renders: it applies the first \<open>n\<close> pending updaters, in the order they were
  queued.  When it does so is not in the hands of the loop: at the call of \<open>setMessages\<close>,
  at a later \<open>await\<close>, or after the loop has ended.\<close>

definition react :: "nat \<Rightarrow> stream_state \<Rightarrow> stream_state" where
  "react n st =
     st\<lparr>messages := foldl (\<lambda>prev u. run_updater st u prev) (messages st) (take n (pending st)),
        pending := drop n (pending st)\<rparr>"

text \<open>\<open>data.tool_args?.file_path\<close>.\<close>

definition file_path_of :: "json \<Rightarrow> jsval" where
  "file_path_of data =
     (case get_prop data ''tool_args'' of
        None \<Rightarrow> None
      | Some tool_args \<Rightarrow> if tool_args = JNull then None else get_prop tool_args ''file_path'')"

text \<open>
  The body of the \<open>try\<close> after \<open>JSON.parse\<close> returned \<open>data\<close> is a chain of tests of
  \<open>data.type\<close>.  Whatever it throws lands in the \<open>catch\<close> of the same \<open>try\<close>, which
  logs it and goes on with the next line.  The branches first, each as the statements it
  runs until it ends or throws.

  \<open>thinking\<close> and \<open>content\<close>: the flags are set, then \<open>+=\<close> converts \<open>data.content\<close> to
  text; when that throws, the buffer and the live text stay as they were.
\<close>

definition on_thinking :: "json \<Rightarrow> stream_state \<Rightarrow> stream_state" where
  "on_thinking data st =
     (case to_string (get_prop data ''content'') of
        None \<Rightarrow> st\<lparr>inThinking := True, console := console st @ [TypeError]\<rparr>
      | Some text \<Rightarrow>
          st\<lparr>inThinking := True, thinkingBuffer := thinkingBuffer st @ text,
             currentThinking := thinkingBuffer st @ text\<rparr>)"

definition on_content :: "json \<Rightarrow> stream_state \<Rightarrow> stream_state" where
  "on_content data st =
     (case to_string (get_prop data ''content'') of
        None \<Rightarrow> st\<lparr>inThinking := False, inAnswer := True, console := console st @ [TypeError]\<rparr>
      | Some text \<Rightarrow>
          st\<lparr>inThinking := False, inAnswer := True,
             contentBuffer := contentBuffer st @ text,
             currentContent := contentBuffer st @ text\<rparr>)"

text \<open>\<open>tool_call\<close>: the template literal converts \<open>data.tool_name\<close> to text while the
  message is built, before \<open>setMessages\<close> is called.\<close>

definition on_tool_call :: "json \<Rightarrow> stream_state \<Rightarrow> stream_state" where
  "on_tool_call data st =
     (case to_string (get_prop data ''tool_name'') of
        None \<Rightarrow> st\<lparr>console := console st @ [TypeError]\<rparr>
      | Some tool_name \<Rightarrow>
          st\<lparr>pending := pending st @
               [AppendMessage
                  \<lparr>role = Tool,
                   content = ''Executing: '' @ tool_name,
                   toolCall = Some \<lparr>name = get_prop data ''tool_name'',
                                     args = get_prop data ''tool_args'',
                                     result = None\<rparr>\<rparr>]\<rparr>)"

text \<open>\<open>tool_result\<close>: \<open>setMessages\<close>, then \<open>onFileModified?.(data.tool_args?.file_path)\<close>
  for the two tools that write.  The prop \<open>onFileModified\<close> is optional; of a callback
  given, what matters is whether a call returns (\<^term>\<open>None\<close>) or throws, taken as a
  function of its argument.\<close>

definition on_tool_result ::
  "(jsval \<Rightarrow> js_error option) option \<Rightarrow> json \<Rightarrow> stream_state \<Rightarrow> stream_state" where
  "on_tool_result onFileModified data st =
     (if get_prop data ''tool_name'' = Some (JStr ''write_file'')
         \<or> get_prop data ''tool_name'' = Some (JStr ''edit_file'')
      then
        (case onFileModified of
           None \<Rightarrow> st\<lparr>pending := pending st @ [SetToolResult (get_prop data ''result'')]\<rparr>
         | Some called \<Rightarrow>
             st\<lparr>pending := pending st @ [SetToolResult (get_prop data ''result'')],
                fileModified := fileModified st @ [file_path_of data],
                console := console st
                  @ (case called (file_path_of data) of None \<Rightarrow> [] | Some e \<Rightarrow> [e])\<rparr>)
      else st\<lparr>pending := pending st @ [SetToolResult (get_prop data ''result'')]\<rparr>)"

text \<open>\<open>done\<close>: the two tests are made now, the updaters they queue read the buffers
  later.\<close>

definition on_done :: "bool \<Rightarrow> stream_state \<Rightarrow> stream_state" where
  "on_done showThinking st =
     st\<lparr>pending := pending st
            @ (if thinkingBuffer st \<noteq> [] \<and> showThinking then [AppendThinking] else [])
            @ (if contentBuffer st \<noteq> [] then [AppendAssistant] else []),
        currentThinking := [],
        currentContent := []\<rparr>"

text \<open>\<open>error\<close>: \<open>throw new Error(data.error)\<close>; the constructor converts a message that
  is not \<open>undefined\<close> to text.\<close>

definition on_error :: "json \<Rightarrow> stream_state \<Rightarrow> stream_state" where
  "on_error data st =
     st\<lparr>console := console st @
          [case get_prop data ''error'' of
             None \<Rightarrow> Error []
           | Some e \<Rightarrow> (case to_str e of None \<Rightarrow> TypeError | Some m \<Rightarrow> Error m)]\<rparr>"

text \<open>The chain.  Reading \<open>data.type\<close> of \<open>null\<close> throws.\<close>

definition on_data ::
  "bool \<Rightarrow> (jsval \<Rightarrow> js_error option) option \<Rightarrow> json \<Rightarrow> stream_state \<Rightarrow> stream_state" where
  "on_data showThinking onFileModified data st =
     (if data = JNull then st\<lparr>console := console st @ [TypeError]\<rparr>
      else if get_prop data ''type'' = Some (JStr ''thinking'') then on_thinking data st
      else if get_prop data ''type'' = Some (JStr ''content'') then on_content data st
      else if get_prop data ''type'' = Some (JStr ''tool_call'') then on_tool_call data st
      else if get_prop data ''type'' = Some (JStr ''tool_result'')
        then on_tool_result onFileModified data st
      else if get_prop data ''type'' = Some (JStr ''done'') then on_done showThinking st
      else if get_prop data ''type'' = Some (JStr ''error'') then on_error data st
      else st)"

text \<open>The body of \<open>for (const line of lines)\<close>.  \<open>parse\<close> is \<open>JSON.parse\<close>:
  \<^term>\<open>None\<close> when it throws.\<close>

definition on_line ::
  "(string \<Rightarrow> json option) \<Rightarrow> bool \<Rightarrow> (jsval \<Rightarrow> js_error option) option
     \<Rightarrow> stream_state \<Rightarrow> string \<Rightarrow> stream_state" where
  "on_line parse showThinking onFileModified st line =
     (if startsWith line ''data: '' then
        (case parse (drop 6 line) of
           None \<Rightarrow> st\<lparr>console := console st @ [SyntaxError]\<rparr>
         | Some data \<Rightarrow> on_data showThinking onFileModified data st)
      else st)"

text \<open>One turn of the \<open>while (true)\<close> loop for a chunk that was read:
  \<open>buffer += chunk; lines = buffer.split('\n'); buffer = lines.pop() || ''\<close>, then the
  \<open>for\<close> loop over the remaining lines.\<close>

definition feed ::
  "(string \<Rightarrow> json option) \<Rightarrow> bool \<Rightarrow> (jsval \<Rightarrow> js_error option) option
     \<Rightarrow> stream_state \<Rightarrow> string \<Rightarrow> stream_state" where
  "feed parse showThinking onFileModified st chunk =
     (let lines = split_newline (buffer st @ chunk)
      in foldl (on_line parse showThinking onFileModified) (st\<lparr>buffer := last lines\<rparr>)
           (butlast lines))"

text \<open>The whole loop over the chunks of the transport; at \<open>done\<close> it leaves by
  \<open>break\<close> and nothing else happens to the variables.\<close>

definition read_loop ::
  "(string \<Rightarrow> json option) \<Rightarrow> bool \<Rightarrow> (jsval \<Rightarrow> js_error option) option
     \<Rightarrow> stream_state \<Rightarrow> string list \<Rightarrow> stream_state" where
  "read_loop parse showThinking onFileModified st chunks =
     foldl (feed parse showThinking onFileModified) st chunks"

text \<open>The state in which the loop starts, \<open>prev\<close> being the messages shown so far
  (the user's message included).\<close>

definition start_state :: "Message list \<Rightarrow> stream_state" where
  "start_state prev =
     \<lparr>buffer = [], thinkingBuffer = [], contentBuffer = [], inThinking = False,
      inAnswer = False, messages = prev, pending = [], currentThinking = [],
      currentContent = [], fileModified = [], console = []\<rparr>"


text \<open>
  Names to state what the consumer decodes: a line \<open>is_event\<close> of a type when it is a
  \<open>data: \<close> line whose payload parses to a value with that \<open>type\<close>; its \<open>delta\<close> for a
  type is the text its \<open>content\<close> field adds to the buffer when it is an event of that
  type: nothing when the conversion to text throws, and nothing for any other line.
\<close>

definition is_event :: "(string \<Rightarrow> json option) \<Rightarrow> string \<Rightarrow> string \<Rightarrow> bool" where
  "is_event parse ty line =
     (startsWith line ''data: ''
      \<and> (case parse (drop 6 line) of
            None \<Rightarrow> False
          | Some data \<Rightarrow> get_prop data ''type'' = Some (JStr ty)))"

definition delta :: "(string \<Rightarrow> json option) \<Rightarrow> string \<Rightarrow> string \<Rightarrow> string" where
  "delta parse ty line =
     (if is_event parse ty line
      then (case parse (drop 6 line) of
              None \<Rightarrow> []
            | Some data \<Rightarrow>
                (case to_string (get_prop data ''content'') of
                   None \<Rightarrow> []
                 | Some text \<Rightarrow> text))
      else [])"

text \<open>What the \<open>try\<close> block throws for \<open>data\<close>, if anything.\<close>

definition thrown :: "(jsval \<Rightarrow> js_error option) option \<Rightarrow> json \<Rightarrow> js_error list" where
  "thrown onFileModified data =
     (if data = JNull then [TypeError]
      else if get_prop data ''type'' = Some (JStr ''thinking'')
              \<or> get_prop data ''type'' = Some (JStr ''content'')
      then (case to_string (get_prop data ''content'') of None \<Rightarrow> [TypeError] | Some text \<Rightarrow> [])
      else if get_prop data ''type'' = Some (JStr ''tool_call'')
      then (case to_string (get_prop data ''tool_name'') of
              None \<Rightarrow> [TypeError]
            | Some tool_name \<Rightarrow> [])
      else if get_prop data ''type'' = Some (JStr ''tool_result'')
      then (if get_prop data ''tool_name'' = Some (JStr ''write_file'')
               \<or> get_prop data ''tool_name'' = Some (JStr ''edit_file'')
            then (case onFileModified of
                    None \<Rightarrow> []
                  | Some called \<Rightarrow>
                      (case called (file_path_of data) of None \<Rightarrow> [] | Some e \<Rightarrow> [e]))
            else [])
      else if get_prop data ''type'' = Some (JStr ''error'')
      then [case get_prop data ''error'' of
              None \<Rightarrow> Error []
            | Some e \<Rightarrow> (case to_str e of None \<Rightarrow> TypeError | Some m \<Rightarrow> Error m)]
      else [])"

text \<open>What a line adds to the console: the error its \<open>try\<close> block throws, if
  any.\<close>

definition logged ::
  "(string \<Rightarrow> json option) \<Rightarrow> (jsval \<Rightarrow> js_error option) option \<Rightarrow> string \<Rightarrow> js_error list" where
  "logged parse onFileModified line =
     (if startsWith line ''data: '' then
        (case parse (drop 6 line) of
           None \<Rightarrow> [SyntaxError]
         | Some data \<Rightarrow> thrown onFileModified data)
      else [])"


section \<open>A reader for JSON text\<close>

text \<open>
  \<open>JSON.parse\<close> belongs to the platform, and the consumer above takes it as the
  parameter \<open>parse\<close>.  To run the consumer on concrete lines, this section reads JSON text
  by recursive descent after the grammar of ECMA-404: white space, the three literals,
  strings with their escapes, numbers, arrays and objects, and nothing after the value
  but white space.  Two things it does not compute: the code unit of a \<open>\u\<close> escape above
  255 has no \<^typ>\<open>char\<close>, and such a string is refused; and a number keeps the text
  of its literal (\<open>-0\<close> becomes \<open>0\<close>), which is what JavaScript prints for an integer
  literal of up to 15 digits.  The fuel counts the nested calls of the descent; the reader
  starts with twice the length of the text and two, beyond which more fuel changes nothing
  (theorem \<open>JSON_parse_fuel\<close>).
\<close>

definition is_ws :: "char \<Rightarrow> bool" where
  "is_ws c = (c = CHR '' '' \<or> c = CHR 0x09 \<or> c = CHR 0x0A \<or> c = CHR 0x0D)"

definition skip_ws :: "string \<Rightarrow> string" where
  "skip_ws s = dropWhile is_ws s"

definition is_digit :: "char \<Rightarrow> bool" where
  "is_digit c = (48 \<le> (of_char c :: nat) \<and> (of_char c :: nat) \<le> 57)"

definition hex_val :: "char \<Rightarrow> nat option" where
  "hex_val c =
     (let n = (of_char c :: nat)
      in if 48 \<le> n \<and> n \<le> 57 then Some (n - 48)
         else if 97 \<le> n \<and> n \<le> 102 then Some (n - 87)
         else if 65 \<le> n \<and> n \<le> 70 then Some (n - 55)
         else None)"

definition hex4 :: "string \<Rightarrow> nat option" where
  "hex4 s =
     (case map hex_val (take 4 s) of
        [Some a, Some b, Some c, Some d] \<Rightarrow> Some (((a * 16 + b) * 16 + c) * 16 + d)
      | _ \<Rightarrow> None)"

definition unescape :: "char \<Rightarrow> char option" where
  "unescape e =
     (if e = CHR 0x22 \<or> e = CHR 0x5C \<or> e = CHR ''/'' then Some e
      else if e = CHR ''b'' then Some (CHR 0x08)
      else if e = CHR ''f'' then Some (CHR 0x0C)
      else if e = CHR ''n'' then Some (CHR 0x0A)
      else if e = CHR ''r'' then Some (CHR 0x0D)
      else if e = CHR ''t'' then Some (CHR 0x09)
      else None)"

text \<open>The characters of a string after its opening quote, up to the closing one, and
  the text that follows.\<close>

fun string_body :: "string \<Rightarrow> (string \<times> string) option" where
  "string_body [] = None"
| "string_body (c # cs) =
     (if c = CHR 0x22 then Some ([], cs)
      else if c = CHR 0x5C then
        (case cs of
           [] \<Rightarrow> None
         | e # r \<Rightarrow>
             if e = CHR ''u'' then
               (case hex4 r of
                  None \<Rightarrow> None
                | Some n \<Rightarrow>
                    if n < 256 then map_option (apfst ((#) (char_of n))) (string_body (drop 4 r))
                    else None)
             else
               (case unescape e of
                  None \<Rightarrow> None
                | Some x \<Rightarrow> map_option (apfst ((#) x)) (string_body r)))
      else if (of_char c :: nat) < 32 then None
      else map_option (apfst ((#) c)) (string_body cs))"

text \<open>One or more digits, and the text after them.\<close>

definition digits1 :: "string \<Rightarrow> (string \<times> string) option" where
  "digits1 s =
     (if takeWhile is_digit s = [] then None
      else Some (takeWhile is_digit s, dropWhile is_digit s))"

text \<open>The literal of a number: an optional minus, \<open>0\<close> or digits without a leading
  zero, an optional fraction, an optional exponent.  Each part gives its text and the text
  that follows it.\<close>

definition sign_part :: "string \<Rightarrow> string \<times> string" where
  "sign_part s =
     (case s of
        c # r \<Rightarrow> if c = CHR ''-'' then ([c], r) else ([], s)
      | [] \<Rightarrow> ([], s))"

definition int_part :: "string \<Rightarrow> (string \<times> string) option" where
  "int_part s =
     (case s of
        [] \<Rightarrow> None
      | c # r \<Rightarrow> if c = CHR ''0'' then Some ([c], r) else digits1 s)"

definition frac_part :: "string \<Rightarrow> (string \<times> string) option" where
  "frac_part s =
     (case s of
        c # r \<Rightarrow> if c = CHR ''.'' then map_option (apfst ((#) c)) (digits1 r)
                 else Some ([], s)
      | [] \<Rightarrow> Some ([], s))"

definition exp_part :: "string \<Rightarrow> (string \<times> string) option" where
  "exp_part s =
     (case s of
        c # r \<Rightarrow>
          if c = CHR ''e'' \<or> c = CHR ''E'' then
            (case r of
               d # r' \<Rightarrow>
                 if d = CHR ''+'' \<or> d = CHR ''-''
                 then map_option (apfst (\<lambda>ds. c # d # ds)) (digits1 r')
                 else map_option (apfst ((#) c)) (digits1 r)
             | [] \<Rightarrow> None)
          else Some ([], s)
      | [] \<Rightarrow> Some ([], s))"

definition number_lexeme :: "string \<Rightarrow> (string \<times> string) option" where
  "number_lexeme s =
     (case sign_part s of
        (sign, s1) \<Rightarrow>
          (case int_part s1 of
             None \<Rightarrow> None
           | Some (ip, s2) \<Rightarrow>
               (case frac_part s2 of
                  None \<Rightarrow> None
                | Some (fp, s3) \<Rightarrow>
                    (case exp_part s3 of
                       None \<Rightarrow> None
                     | Some (ep, s4) \<Rightarrow> Some (sign @ ip @ fp @ ep, s4)))))"

definition number_text :: "string \<Rightarrow> string" where
  "number_text lexeme = (if lexeme = ''-0'' then ''0'' else lexeme)"

fun parse_value :: "nat \<Rightarrow> string \<Rightarrow> (json \<times> string) option"
  and parse_elements :: "nat \<Rightarrow> string \<Rightarrow> (json list \<times> string) option"
  and parse_members :: "nat \<Rightarrow> string \<Rightarrow> ((string \<times> json) list \<times> string) option"
where
  "parse_value 0 s = None"
| "parse_value (Suc n) s =
     (case skip_ws s of
        [] \<Rightarrow> None
      | c # r \<Rightarrow>
          if c = CHR ''{'' then
            (case skip_ws r of
               [] \<Rightarrow> None
             | d # r' \<Rightarrow> if d = CHR ''}'' then Some (JObj [], r')
                         else map_option (apfst JObj) (parse_members n r))
          else if c = CHR ''['' then
            (case skip_ws r of
               [] \<Rightarrow> None
             | d # r' \<Rightarrow> if d = CHR '']'' then Some (JArr [], r')
                         else map_option (apfst JArr) (parse_elements n r))
          else if c = CHR 0x22 then map_option (apfst JStr) (string_body r)
          else if startsWith (c # r) ''true'' then Some (JBool True, drop 4 (c # r))
          else if startsWith (c # r) ''false'' then Some (JBool False, drop 5 (c # r))
          else if startsWith (c # r) ''null'' then Some (JNull, drop 4 (c # r))
          else map_option (apfst (\<lambda>l. JNum (number_text l))) (number_lexeme (c # r)))"
| "parse_elements 0 s = None"
| "parse_elements (Suc n) s =
     (case parse_value n s of
        None \<Rightarrow> None
      | Some (v, r) \<Rightarrow>
          (case skip_ws r of
             [] \<Rightarrow> None
           | c # r' \<Rightarrow>
               if c = CHR '','' then map_option (apfst ((#) v)) (parse_elements n r')
               else if c = CHR '']'' then Some ([v], r')
               else None))"
| "parse_members 0 s = None"
| "parse_members (Suc n) s =
     (case skip_ws s of
        [] \<Rightarrow> None
      | q # r \<Rightarrow>
          if q \<noteq> CHR 0x22 then None
          else
            (case string_body r of
               None \<Rightarrow> None
             | Some (k, r1) \<Rightarrow>
                 (case skip_ws r1 of
                    [] \<Rightarrow> None
                  | c # r2 \<Rightarrow>
                      if c \<noteq> CHR '':'' then None
                      else
                        (case parse_value n r2 of
                           None \<Rightarrow> None
                         | Some (v, r3) \<Rightarrow>
                             (case skip_ws r3 of
                                [] \<Rightarrow> None
                              | d # r4 \<Rightarrow>
                                  if d = CHR '','' then
                                    map_option (apfst ((#) (k, v))) (parse_members n r4)
                                  else if d = CHR ''}'' then Some ([(k, v)], r4)
                                  else None)))))"

definition JSON_parse :: "string \<Rightarrow> json option" where
  "JSON_parse s =
     (case parse_value (2 * length s + 2) s of
        None \<Rightarrow> None
      | Some (v, r) \<Rightarrow> if skip_ws r = [] then Some v else None)"

section \<open>Lines to run the consumers on\<close>

abbreviation content_hi :: string where
  "content_hi \<equiv> ''data: {\"type\":\"content\",\"content\":\"Hi\"}''"

abbreviation content_again :: string where
  "content_again \<equiv> ''data: {\"type\":\"content\",\"content\":\" again\"}''"

abbreviation thinking_hm :: string where
  "thinking_hm \<equiv> ''data: {\"type\":\"thinking\",\"content\":\"Hm\"}''"

abbreviation done_line :: string where
  "done_line \<equiv> ''data: {\"type\":\"done\"}''"





abbreviation result_write :: string where
  "result_write \<equiv> ''data: {\"type\":\"tool_result\",\"tool_name\":\"write_file\",\"result\":true}''"

text \<open>The callback the application passes as \<open>onFileModified\<close> (UndoRedoPanel.tsx) shows
  \<open>filePath.split('/').pop()\<close> in a toast: the call of \<open>split\<close> throws a \<open>TypeError\<close>
  for everything but a string.\<close>

abbreviation file_toast :: "jsval \<Rightarrow> js_error option" where
  "file_toast filePath \<equiv> (case filePath of Some (JStr p) \<Rightarrow> None | _ \<Rightarrow> Some TypeError)"


abbreviation assistant_message :: "string \<Rightarrow> Message" where
  "assistant_message t \<equiv> \<lparr>role = Assistant, content = t, toolCall = None\<rparr>"

abbreviation terminated :: "string list \<Rightarrow> string" where
  "terminated ls \<equiv> concat (map (\<lambda>l. l @ ''\<newline>'') ls)"

section \<open>Properties of the keyboard shortcut matcher\<close>

subsection \<open>The scan, one shortcut at a time\<close>

lemmas modifier_defs = matches_def matchesKey_def matchesModifier_def cmdOrCtrl_def
  matchesCtrl_def matchesShift_def matchesAlt_def matchesMeta_def truthy_def

lemma lower_examples [simp]:
  "toLowerCase ''S'' = ''s''" "toLowerCase ''s'' = ''s''"
  "toLowerCase ''K'' = ''k''" "toLowerCase ''k'' = ''k''"
  "toLowerCase ''Escape'' = ''escape''" "toLowerCase ''escape'' = ''escape''"
  by code_simp+

lemma scan_skip:
  "\<not> fires inField event s \<Longrightarrow> scan inField event i (s # rest) = scan inField event (Suc i) rest"
  by (auto simp: fires_def matches_def suppressed_def)

lemma scan_hit:
  "fires inField event s \<Longrightarrow>
   scan inField event i (s # rest) =
     (if preventDefault s \<noteq> Some False then [PreventDefault] else []) @ [Handler i]"
  by (auto simp: fires_def matches_def suppressed_def)

lemma scan_Suc: "scan inField event (Suc i) ss = map bump (scan inField event i ss)"
proof (induction ss arbitrary: i)
  case Nil
  show ?case by simp
next
  case (Cons s ss)
  show ?case
  proof (cases "fires inField event s")
    case True
    then show ?thesis by (simp add: scan_hit bump_def del: scan.simps(2))
  next
    case False
    then show ?thesis using Cons.IH[of "Suc i"] by (simp add: scan_skip del: scan.simps(2))
  qed
qed

lemma handlers_scan_hit:
  "fires inField event s \<Longrightarrow> handlers (scan inField event i (s # rest)) = [i]"
  by (simp add: scan_hit handlers_def del: scan.simps)

lemma handlers_scan_le1: "length (handlers (scan inField event i ss)) \<le> 1"
proof (induction ss arbitrary: i)
  case Nil
  show ?case by (simp add: handlers_def)
next
  case (Cons s ss)
  show ?case
  proof (cases "fires inField event s")
    case True
    then show ?thesis by (simp add: handlers_scan_hit del: scan.simps(2))
  next
    case False
    then show ?thesis using Cons.IH[of "Suc i"] by (simp add: scan_skip del: scan.simps(2))
  qed
qed

text \<open>The handler called is the one of the first shortcut that fires: position \<open>k\<close> of
  the whole list, when the scan starts at position \<open>i\<close> with \<open>ss\<close> still to go.\<close>

lemma handlers_scan_iff:
  "handlers (scan inField event i ss) = [k] \<longleftrightarrow>
     (i \<le> k \<and> k - i < length ss \<and> fires inField event (ss ! (k - i))
      \<and> (\<forall>j < k - i. \<not> fires inField event (ss ! j)))"
proof (induction ss arbitrary: i)
  case Nil
  then show ?case by (simp add: handlers_def)
next
  case (Cons s ss)
  show ?case
  proof (cases "fires inField event s")
    case True
    then have "handlers (scan inField event i (s # ss)) = [i]"
      by (rule handlers_scan_hit)
    moreover have "(i \<le> k \<and> k - i < length (s # ss) \<and> fires inField event ((s # ss) ! (k - i))
      \<and> (\<forall>j < k - i. \<not> fires inField event ((s # ss) ! j))) \<longleftrightarrow> k = i"
      using True by (cases "k - i") auto
    ultimately show ?thesis by auto
  next
    case False
    then have eq: "scan inField event i (s # ss) = scan inField event (Suc i) ss"
      by (rule scan_skip)
    have "(i \<le> k \<and> k - i < length (s # ss) \<and> fires inField event ((s # ss) ! (k - i))
      \<and> (\<forall>j < k - i. \<not> fires inField event ((s # ss) ! j))) \<longleftrightarrow>
      (Suc i \<le> k \<and> k - Suc i < length ss \<and> fires inField event (ss ! (k - Suc i))
      \<and> (\<forall>j < k - Suc i. \<not> fires inField event (ss ! j)))" (is "?L \<longleftrightarrow> ?R")
    proof
      assume L: ?L
      then have "k - i \<noteq> 0" using False by (cases "k - i") auto
      then obtain m where m: "k - i = Suc m" by (cases "k - i") auto
      then have m2: "k - Suc i = m" by simp
      from L m have a: "m < length ss" "fires inField event (ss ! m)" by auto
      have "\<forall>j < m. \<not> fires inField event (ss ! j)"
      proof (intro allI impI)
        fix j assume "j < m"
        then have "Suc j < k - i" using m by simp
        with L have "\<not> fires inField event ((s # ss) ! Suc j)" by blast
        then show "\<not> fires inField event (ss ! j)" by simp
      qed
      with a m m2 show ?R by auto
    next
      assume R: ?R
      then obtain m where m: "k - i = Suc m" "k - Suc i = m" by (cases "k - i") auto
      have "\<forall>j < Suc m. \<not> fires inField event ((s # ss) ! j)"
      proof (intro allI impI)
        fix j assume "j < Suc m"
        then show "\<not> fires inField event ((s # ss) ! j)"
          using R m False by (cases j) auto
      qed
      with R m show ?L by auto
    qed
    with eq Cons.IH[of "Suc i"] show ?thesis by simp
  qed
qed

lemma handlers_handleKeyDown_iff:
  "handlers (handleKeyDown activeElement shortcuts event) = [i] \<longleftrightarrow>
     (i < length shortcuts \<and> fires (isInputField activeElement) event (shortcuts ! i)
      \<and> (\<forall>j<i. \<not> fires (isInputField activeElement) event (shortcuts ! j)))"
  unfolding handleKeyDown_def using handlers_scan_iff[of _ _ 0 shortcuts i] by simp

lemma handlers_scan_mem:
  assumes "k \<in> set (handlers (scan inField event i ss))"
  shows "handlers (scan inField event i ss) = [k]"
proof -
  have "length (handlers (scan inField event i ss)) \<le> 1" by (rule handlers_scan_le1)
  with assms show ?thesis by (cases "handlers (scan inField event i ss)") auto
qed

lemma handlers_handleKeyDown_fires:
  assumes "i \<in> set (handlers (handleKeyDown activeElement shortcuts event))"
  shows "i < length shortcuts \<and> fires (isInputField activeElement) event (shortcuts ! i)"
proof -
  from assms have "handlers (handleKeyDown activeElement shortcuts event) = [i]"
    unfolding handleKeyDown_def by (rule handlers_scan_mem)
  then show ?thesis by (simp add: handlers_handleKeyDown_iff)
qed

lemma Handler_mem_handlers: "Handler i \<in> set es \<longleftrightarrow> i \<in> set (handlers es)"
  by (induction es) (auto simp: handlers_def split: effect.splits)

lemma fires_in_field:
  "fires True event s \<Longrightarrow> key s = ''Escape'' \<or> ctrlKey event \<or> metaKey event"
  by (auto simp: fires_def suppressed_def cmdOrCtrl_def)



subsection \<open>Matching and priority\<close>








subsection \<open>Input fields\<close>

text \<open>With the focus in an \<open>INPUT\<close> element, the shortcut \<open>k\<close>, which sets no modifier
  flag and so requires neither \<open>ctrl\<close> nor \<open>meta\<close>, has its handler called by \<open>Ctrl+k\<close>:
  what lifts the suppression is the modifier held in the event, not a requirement of the
  descriptor.\<close>

theorem input_suppression_counterexample:
  "isInputField input_element
   \<and> ctrl search_plain = None \<and> meta search_plain = None
   \<and> handleKeyDown input_element [search_plain] (key_event ''k'' True False)
     = [PreventDefault, Handler 0]"
  by (simp add: handleKeyDown_def isInputField_def modifier_defs)

text \<open>
  Claim C9, as the code has it.  The focus counts as inside an input field exactly when
  there is an active element whose tag is \<open>INPUT\<close> or \<open>TEXTAREA\<close> or whose attribute
  \<open>contenteditable\<close> is the string \<open>true\<close>.  While it is, a handler is called only if
  the key of its descriptor is exactly \<open>Escape\<close> or the event holds \<open>ctrl\<close> or \<open>meta\<close>;
  so when the event holds neither, every shortcut whose key is not \<open>Escape\<close> is
  suppressed.  A shortcut that requests \<open>ctrl\<close> or \<open>meta\<close> and matches is never
  suppressed: at the head of the list, its handler is the one called.
\<close>

theorem input_suppression:
  "(isInputField activeElement \<longleftrightarrow>
      (\<exists>e. activeElement = Some e
          \<and> (tagName e = ''INPUT'' \<or> tagName e = ''TEXTAREA''
             \<or> contenteditable e = Some ''true'')))
   \<and> (isInputField activeElement
        \<and> Handler i \<in> set (handleKeyDown activeElement shortcuts event) \<longrightarrow>
        key (shortcuts ! i) = ''Escape'' \<or> ctrlKey event \<or> metaKey event)
   \<and> (isInputField activeElement
        \<and> \<not> ctrlKey event \<and> \<not> metaKey event \<and> key (shortcuts ! j) \<noteq> ''Escape'' \<longrightarrow>
        Handler j \<notin> set (handleKeyDown activeElement shortcuts event))
   \<and> (matches event s \<and> (ctrl s = Some True \<or> meta s = Some True) \<longrightarrow>
        fires True event s
        \<and> handleKeyDown activeElement (s # rest) event
            = (if preventDefault s \<noteq> Some False then [PreventDefault] else []) @ [Handler 0])"
proof -
  have e: "isInputField activeElement \<longleftrightarrow>
      (\<exists>e. activeElement = Some e
          \<and> (tagName e = ''INPUT'' \<or> tagName e = ''TEXTAREA''
             \<or> contenteditable e = Some ''true''))"
    by (cases activeElement) (simp_all add: isInputField_def)
  have a: "key (shortcuts ! n) = ''Escape'' \<or> ctrlKey event \<or> metaKey event"
    if "isInputField activeElement"
      "Handler n \<in> set (handleKeyDown activeElement shortcuts event)" for n
  proof -
    from that(2) have "n \<in> set (handlers (handleKeyDown activeElement shortcuts event))"
      by (simp add: Handler_mem_handlers)
    then have "fires (isInputField activeElement) event (shortcuts ! n)"
      by (simp add: handlers_handleKeyDown_fires)
    with that(1) show ?thesis by (simp add: fires_in_field)
  qed
  have c: "fires True event s
        \<and> handleKeyDown activeElement (s # rest) event
            = (if preventDefault s \<noteq> Some False then [PreventDefault] else []) @ [Handler 0]"
    if "matches event s" "ctrl s = Some True \<or> meta s = Some True"
  proof -
    from that have "ctrlKey event \<or> metaKey event" by (auto simp: modifier_defs)
    with that(1) have f: "fires inField event s" for inField
      by (simp add: fires_def suppressed_def cmdOrCtrl_def)
    from f[of "isInputField activeElement"]
    have "handleKeyDown activeElement (s # rest) event
            = (if preventDefault s \<noteq> Some False then [PreventDefault] else []) @ [Handler 0]"
      unfolding handleKeyDown_def by (simp add: scan_hit del: scan.simps(2))
    with f[of True] show ?thesis by simp
  qed
  from e a[of i] a[of j] c show ?thesis by blast
qed

text \<open>A \<open>div\<close> with \<open>contenteditable="true"\<close> is an input field.  In an \<open>INPUT\<close>
  element with the shortcuts \<open>k\<close> and \<open>Escape\<close> registered: the Escape key calls the
  second handler, a plain \<open>k\<close> does not call the first, and \<open>Cmd+s\<close> calls the handler
  of the shortcut \<open>Ctrl+s\<close>.\<close>

theorem input_suppression_witness:
  "isInputField (Some \<lparr>tagName = ''DIV'', contenteditable = Some ''true''\<rparr>)
   \<and> Handler 1 \<in> set (handleKeyDown input_element [search_plain, escape_exact]
       (key_event ''Escape'' False False))
   \<and> Handler 0 \<notin> set (handleKeyDown input_element [search_plain, escape_exact]
       (key_event ''k'' False False))
   \<and> fires True (key_event ''s'' False True) save_ctrl
   \<and> handleKeyDown input_element (save_ctrl # [search_plain]) (key_event ''s'' False True)
     = [PreventDefault, Handler 0]"
proof -
  have f: "isInputField input_element" by (simp add: isInputField_def)
  have h1: "Handler 1 \<in> set (handleKeyDown input_element [search_plain, escape_exact]
       (key_event ''Escape'' False False))"
    by (simp add: handleKeyDown_def isInputField_def modifier_defs)
  have h3: "matches (key_event ''s'' False True) save_ctrl"
    by (simp add: modifier_defs)
  from input_suppression[of "Some \<lparr>tagName = ''DIV'', contenteditable = Some ''true''\<rparr>"
      0 "[search_plain, escape_exact]" "key_event ''k'' False False" 0 save_ctrl "[]"]
  have d: "isInputField (Some \<lparr>tagName = ''DIV'', contenteditable = Some ''true''\<rparr>)"
    by simp
  from input_suppression[of input_element 0 "[search_plain, escape_exact]"
      "key_event ''k'' False False" 0 save_ctrl "[]"] f
  have n: "Handler 0 \<notin> set (handleKeyDown input_element [search_plain, escape_exact]
       (key_event ''k'' False False))"
    by simp
  from input_suppression[of input_element 1 "[search_plain, escape_exact]"
      "key_event ''s'' False True" 0 save_ctrl "[search_plain]"] h3
  have c: "fires True (key_event ''s'' False True) save_ctrl
     \<and> handleKeyDown input_element (save_ctrl # [search_plain]) (key_event ''s'' False True)
       = [PreventDefault, Handler 0]" by simp
  from d h1 n c show ?thesis by simp
qed

subsection \<open>After a suppressed match\<close>

text \<open>With the shortcuts \<open>k\<close> and \<open>Ctrl+k\<close> registered in this order and the focus in an
  \<open>INPUT\<close> element, no event has the first one matched and suppressed and the second
  one's handler called: the first is suppressed only when neither \<open>ctrl\<close> nor \<open>meta\<close>
  is held, and then a descriptor requesting one of them does not match.\<close>

theorem later_ctrl_descriptor_counterexample:
  "\<not> (\<exists>event. matches event search_plain \<and> suppressed True event search_plain
         \<and> Handler 1 \<in> set (handleKeyDown input_element [search_plain, search_ctrl] event))"
  by (auto simp: handleKeyDown_def isInputField_def suppressed_def modifier_defs)

text \<open>
  Claim C10, as the code has it.  When the first shortcut matches the event and is
  suppressed because the focus is inside an input field, the scan goes on: the effects are
  those of the remaining shortcuts, one position further.  A handler called then belongs
  to a later shortcut that matches the same event and whose key is exactly \<open>Escape\<close>;
  the event holds neither \<open>ctrl\<close> nor \<open>meta\<close>.
\<close>

theorem suppressed_first_continues:
  "isInputField activeElement \<and> matches event s \<and> suppressed True event s \<Longrightarrow>
     handleKeyDown activeElement (s # rest) event
       = map bump (handleKeyDown activeElement rest event)
     \<and> (Handler j \<in> set (handleKeyDown activeElement (s # rest) event) \<longrightarrow>
          0 < j \<and> fires True event (rest ! (j - 1)) \<and> key (rest ! (j - 1)) = ''Escape''
          \<and> \<not> ctrlKey event \<and> \<not> metaKey event)"
proof -
  assume asm: "isInputField activeElement \<and> matches event s \<and> suppressed True event s"
  then have nf: "\<not> fires (isInputField activeElement) event s"
    by (simp add: fires_def)
  then have eq: "handleKeyDown activeElement (s # rest) event
       = map bump (handleKeyDown activeElement rest event)"
    unfolding handleKeyDown_def by (simp add: scan_skip scan_Suc del: scan.simps(2))
  have "0 < j \<and> fires True event (rest ! (j - 1)) \<and> key (rest ! (j - 1)) = ''Escape''
          \<and> \<not> ctrlKey event \<and> \<not> metaKey event"
    if "Handler j \<in> set (handleKeyDown activeElement (s # rest) event)"
  proof -
    from that have "j \<in> set (handlers (handleKeyDown activeElement (s # rest) event))"
      by (simp add: Handler_mem_handlers)
    then have f: "j < length (s # rest)"
        "fires (isInputField activeElement) event ((s # rest) ! j)"
      using handlers_handleKeyDown_fires by blast+
    with nf have pos: "0 < j" by (cases j) auto
    with f asm have fr: "fires True event (rest ! (j - 1))" by (cases j) auto
    from asm have nc: "\<not> ctrlKey event \<and> \<not> metaKey event"
      by (simp add: suppressed_def cmdOrCtrl_def)
    with fr have "key (rest ! (j - 1)) = ''Escape''" using fires_in_field by blast
    with pos fr nc show ?thesis by simp
  qed
  with eq show ?thesis by blast
qed

text \<open>In an \<open>INPUT\<close> element with the shortcuts \<open>escape\<close> and \<open>Escape\<close> registered in
  this order, the Escape key matches the first, which is suppressed, and calls the handler
  of the second.\<close>

theorem suppressed_first_continues_witness:
  "handleKeyDown input_element [escape_lower, escape_exact] (key_event ''Escape'' False False)
     = map bump (handleKeyDown input_element [escape_exact] (key_event ''Escape'' False False))
   \<and> handleKeyDown input_element [escape_lower, escape_exact] (key_event ''Escape'' False False)
     = [PreventDefault, Handler 1]"
proof -
  have h: "isInputField input_element
     \<and> matches (key_event ''Escape'' False False) escape_lower
     \<and> suppressed True (key_event ''Escape'' False False) escape_lower"
    by (simp add: isInputField_def suppressed_def modifier_defs)
  have v: "handleKeyDown input_element [escape_exact] (key_event ''Escape'' False False)
     = [PreventDefault, Handler 0]"
    by (simp add: handleKeyDown_def isInputField_def modifier_defs)
  from suppressed_first_continues[OF h, of "[escape_exact]" 1] v
  show ?thesis by (simp add: bump_def)
qed

section \<open>Properties of the JSON reader\<close>

text \<open>No part of the reader gives back more text than it was given, so every second
  nested call at the latest works on a shorter text; hence fuel beyond twice the length of
  the text (and two) changes no result, and \<open>JSON_parse\<close> never fails for want of
  fuel.\<close>

lemma skip_ws_length: "length (skip_ws s) \<le> length s"
  by (simp add: skip_ws_def length_dropWhile_le)

lemma skip_ws_Cons_length: "skip_ws s = c # r \<Longrightarrow> length r < length s"
  using skip_ws_length[of s] by simp

lemma string_body_length: "string_body s = Some (x, r) \<Longrightarrow> length r \<le> length s"
proof (induction s arbitrary: x r rule: string_body.induct)
  case 1
  then show ?case by simp
next
  case (2 c cs)
  show ?case
  proof (cases "c = CHR 0x22")
    case True
    with "2.prems" show ?thesis by simp
  next
    case nq: False
    show ?thesis
    proof (cases "c = CHR 0x5C")
      case False
      with nq "2.prems" obtain y where "string_body cs = Some (y, r)"
        by (auto split: if_splits)
      with "2.IH"(3)[OF nq False] nq False "2.prems" show ?thesis
        by (auto split: if_splits)
    next
      case bs: True
      show ?thesis
      proof (cases cs)
        case Nil
        with nq bs "2.prems" show ?thesis by simp
      next
        case (Cons e r0)
        show ?thesis
        proof (cases "e = CHR ''u''")
          case True
          with nq bs Cons "2.prems" obtain n y where n: "hex4 r0 = Some n" "n < 256"
              "string_body (drop 4 r0) = Some (y, r)"
            by (auto split: option.splits if_splits)
          from "2.IH"(1)[OF nq bs Cons True n(1) n(2) n(3)]
          have "length r \<le> length (drop 4 r0)" .
          with Cons show ?thesis by simp
        next
          case False
          with nq bs Cons "2.prems" obtain y z where n: "unescape e = Some z"
              "string_body r0 = Some (y, r)"
            by (auto split: option.splits if_splits)
          from "2.IH"(2)[OF nq bs Cons False n(1) n(2)]
          have "length r \<le> length r0" .
          with Cons show ?thesis by simp
        qed
      qed
    qed
  qed
qed

lemma digits1_length: "digits1 s = Some (d, r) \<Longrightarrow> length r \<le> length s"
  by (auto simp: digits1_def length_dropWhile_le split: if_splits)

lemma sign_part_length: "sign_part s = (sg, r) \<Longrightarrow> length r \<le> length s"
  by (auto simp: sign_part_def split: list.splits if_splits)

lemma int_part_length: "int_part s = Some (t, r) \<Longrightarrow> length r \<le> length s"
  by (auto simp: int_part_def split: list.splits if_splits dest: digits1_length)

lemma frac_part_length: "frac_part s = Some (t, r) \<Longrightarrow> length r \<le> length s"
  by (auto simp: frac_part_def split: list.splits if_splits dest: digits1_length)

lemma exp_part_length: "exp_part s = Some (t, r) \<Longrightarrow> length r \<le> length s"
  by (auto simp: exp_part_def split: list.splits if_splits dest: digits1_length)

lemma number_lexeme_length: "number_lexeme s = Some (l, r) \<Longrightarrow> length r \<le> length s"
proof -
  assume a: "number_lexeme s = Some (l, r)"
  obtain sg s1 where s1: "sign_part s = (sg, s1)" by (cases "sign_part s")
  with a obtain ip s2 where s2: "int_part s1 = Some (ip, s2)"
    by (auto simp: number_lexeme_def split: option.splits)
  with a s1 obtain fp s3 where s3: "frac_part s2 = Some (fp, s3)"
    by (auto simp: number_lexeme_def split: option.splits)
  with a s1 s2 obtain ep where s4: "exp_part s3 = Some (ep, r)"
    by (auto simp: number_lexeme_def split: option.splits)
  from sign_part_length[OF s1] int_part_length[OF s2] frac_part_length[OF s3]
    exp_part_length[OF s4]
  show ?thesis by simp
qed

lemma parse_length:
  "(\<forall>s v r. parse_value n s = Some (v, r) \<longrightarrow> length r \<le> length s)
   \<and> (\<forall>s vs r. parse_elements n s = Some (vs, r) \<longrightarrow> length r \<le> length s)
   \<and> (\<forall>s ms r. parse_members n s = Some (ms, r) \<longrightarrow> length r \<le> length s)"
proof (induction n)
  case 0
  show ?case by simp
next
  case (Suc n)
  have v: "length r \<le> length s" if a: "parse_value (Suc n) s = Some (v, r)" for s v r
  proof (cases "skip_ws s")
    case Nil
    with a show ?thesis by simp
  next
    case (Cons c t)
    then have t: "length t < length s" by (rule skip_ws_Cons_length)
    consider (obj) "c = CHR ''{''" | (arr) "c \<noteq> CHR ''{''" "c = CHR ''[''"
      | (str) "c \<noteq> CHR ''{''" "c \<noteq> CHR ''[''" "c = CHR 0x22"
      | (other) "c \<noteq> CHR ''{''" "c \<noteq> CHR ''[''" "c \<noteq> CHR 0x22" by blast
    then show ?thesis
    proof cases
      case obj
      show ?thesis
      proof (cases "skip_ws t")
        case Nil
        with a Cons obj show ?thesis by simp
      next
        case (Cons d t')
        then have "length t' < length t" by (rule skip_ws_Cons_length)
        moreover have "length r \<le> length t" if "parse_members n t = Some (ms, r)" for ms
          using Suc that by blast
        ultimately show ?thesis using a \<open>skip_ws s = c # t\<close> obj Cons t
          by (auto split: if_splits)
      qed
    next
      case arr
      show ?thesis
      proof (cases "skip_ws t")
        case Nil
        with a Cons arr show ?thesis by simp
      next
        case (Cons d t')
        then have "length t' < length t" by (rule skip_ws_Cons_length)
        moreover have "length r \<le> length t" if "parse_elements n t = Some (vs, r)" for vs
          using Suc that by blast
        ultimately show ?thesis using a \<open>skip_ws s = c # t\<close> arr Cons t
          by (auto split: if_splits)
      qed
    next
      case str
      with a Cons obtain x where "string_body t = Some (x, r)" by auto
      then have "length r \<le> length t" by (rule string_body_length)
      with t show ?thesis by simp
    next
      case other
      have sk: "length (c # t) \<le> length s" using Cons skip_ws_length[of s] by simp
      from a Cons other have
        "(startsWith (c # t) ''true'' \<and> r = drop 4 (c # t))
         \<or> (startsWith (c # t) ''false'' \<and> r = drop 5 (c # t))
         \<or> (startsWith (c # t) ''null'' \<and> r = drop 4 (c # t))
         \<or> (\<exists>l. number_lexeme (c # t) = Some (l, r))"
        by (auto split: if_splits)
      then have "length r \<le> length (c # t)"
        by (auto dest: number_lexeme_length)
      with sk show ?thesis by simp
    qed
  qed
  have e: "length r \<le> length s" if a: "parse_elements (Suc n) s = Some (vs, r)" for s vs r
  proof -
    from a obtain v r0 where p: "parse_value n s = Some (v, r0)"
      by (auto split: option.splits)
    with Suc have l0: "length r0 \<le> length s" by blast
    from a p obtain c r1 where k: "skip_ws r0 = c # r1"
      by (auto split: list.splits)
    then have l1: "length r1 < length r0" by (rule skip_ws_Cons_length)
    from a p k have "(\<exists>vs'. parse_elements n r1 = Some (vs', r)) \<or> r = r1"
      by (auto split: if_splits)
    moreover have "length r \<le> length r1" if "parse_elements n r1 = Some (vs', r)" for vs'
      using Suc that by blast
    ultimately have "length r \<le> length r1" by auto
    with l0 l1 show ?thesis by simp
  qed
  have m: "length r \<le> length s" if a: "parse_members (Suc n) s = Some (ms, r)" for s ms r
  proof -
    from a obtain q t where k0: "skip_ws s = q # t" by (auto split: list.splits)
    then have l0: "length t < length s" by (rule skip_ws_Cons_length)
    from a k0 have q: "q = CHR 0x22" by (auto split: if_splits)
    with a k0 obtain k r1 where sb: "string_body t = Some (k, r1)"
      by (auto split: option.splits)
    then have l1: "length r1 \<le> length t" by (rule string_body_length)
    from a k0 q sb obtain c r2 where k2: "skip_ws r1 = c # r2"
      by (auto split: list.splits)
    then have l2: "length r2 < length r1" by (rule skip_ws_Cons_length)
    from a k0 q sb k2 have c: "c = CHR '':''" by (auto split: if_splits)
    with a k0 q sb k2 obtain v r3 where pv: "parse_value n r2 = Some (v, r3)"
      by (auto split: option.splits)
    with Suc have l3: "length r3 \<le> length r2" by blast
    from a k0 q sb k2 c pv obtain d r4 where k4: "skip_ws r3 = d # r4"
      by (auto split: list.splits)
    then have l4: "length r4 < length r3" by (rule skip_ws_Cons_length)
    from a k0 q sb k2 c pv k4 have "(\<exists>ms'. parse_members n r4 = Some (ms', r)) \<or> r = r4"
      by (auto split: if_splits)
    moreover have "length r \<le> length r4" if "parse_members n r4 = Some (ms', r)" for ms'
      using Suc that by blast
    ultimately have "length r \<le> length r4" by auto
    with l0 l1 l2 l3 l4 show ?thesis by simp
  qed
  from v e m show ?case by blast
qed

lemma parse_value_length: "parse_value n s = Some (v, r) \<Longrightarrow> length r \<le> length s"
  using parse_length[of n] by blast

lemma fuel_enough:
  "(\<forall>s m. 2 * length s + 2 \<le> n \<and> n \<le> m \<longrightarrow> parse_value m s = parse_value n s)
   \<and> (\<forall>s m. 2 * length s + 3 \<le> n \<and> n \<le> m \<longrightarrow> parse_elements m s = parse_elements n s)
   \<and> (\<forall>s m. 2 * length s + 3 \<le> n \<and> n \<le> m \<longrightarrow> parse_members m s = parse_members n s)"
proof (induction n)
  case 0
  show ?case by simp
next
  case (Suc n)
  have v: "parse_value m s = parse_value (Suc n) s"
    if b: "2 * length s + 2 \<le> Suc n" "Suc n \<le> m" for s m
  proof -
    from b obtain m' where m: "m = Suc m'" "n \<le> m'" by (cases m) auto
    show ?thesis
    proof (cases "skip_ws s")
      case Nil
      with m show ?thesis by simp
    next
      case (Cons c t)
      then have "length t < length s" by (rule skip_ws_Cons_length)
      with b have "2 * length t + 3 \<le> n" by simp
      with Suc m have "parse_elements m' t = parse_elements n t"
          "parse_members m' t = parse_members n t" by blast+
      with m Cons show ?thesis by (simp split: list.splits)
    qed
  qed
  have e: "parse_elements m s = parse_elements (Suc n) s"
    if b: "2 * length s + 3 \<le> Suc n" "Suc n \<le> m" for s m
  proof -
    from b obtain m' where m: "m = Suc m'" "n \<le> m'" by (cases m) auto
    from b have "2 * length s + 2 \<le> n" by simp
    with Suc m have pv: "parse_value m' s = parse_value n s" by blast
    show ?thesis
    proof (cases "parse_value n s")
      case None
      with pv m show ?thesis by simp
    next
      case (Some a)
      obtain x r0 where a: "a = (x, r0)" by (cases a)
      with Some have "length r0 \<le> length s" by (simp add: parse_value_length)
      show ?thesis
      proof (cases "skip_ws r0")
        case Nil
        with pv m Some a show ?thesis by simp
      next
        case (Cons c r1)
        then have "length r1 < length r0" by (rule skip_ws_Cons_length)
        with \<open>length r0 \<le> length s\<close> b have "2 * length r1 + 3 \<le> n" by simp
        with Suc m have "parse_elements m' r1 = parse_elements n r1" by blast
        with pv m Some a Cons show ?thesis by simp
      qed
    qed
  qed
  have mm: "parse_members m s = parse_members (Suc n) s"
    if b: "2 * length s + 3 \<le> Suc n" "Suc n \<le> m" for s m
  proof -
    from b obtain m' where m: "m = Suc m'" "n \<le> m'" by (cases m) auto
    show ?thesis
    proof (cases "skip_ws s")
      case Nil
      with m show ?thesis by simp
    next
      case k0: (Cons q t)
      then have l0: "length t < length s" by (rule skip_ws_Cons_length)
      show ?thesis
      proof (cases "string_body t")
        case None
        with m k0 show ?thesis by simp
      next
        case (Some a)
        obtain k r1 where a: "a = (k, r1)" by (cases a)
        with Some have l1: "length r1 \<le> length t" by (simp add: string_body_length)
        show ?thesis
        proof (cases "skip_ws r1")
          case Nil
          with m k0 Some a show ?thesis by simp
        next
          case k2: (Cons c r2)
          then have l2: "length r2 < length r1" by (rule skip_ws_Cons_length)
          with l0 l1 b have "2 * length r2 + 2 \<le> n" by simp
          with Suc m have pv: "parse_value m' r2 = parse_value n r2" by blast
          show ?thesis
          proof (cases "parse_value n r2")
            case None
            with pv m k0 Some a k2 show ?thesis by simp
          next
            case sv: (Some a')
            obtain x r3 where a': "a' = (x, r3)" by (cases a')
            with sv have l3: "length r3 \<le> length r2" by (simp add: parse_value_length)
            show ?thesis
            proof (cases "skip_ws r3")
              case Nil
              with pv m k0 Some a k2 sv a' show ?thesis by simp
            next
              case (Cons d r4)
              then have "length r4 < length r3" by (rule skip_ws_Cons_length)
              with l0 l1 l2 l3 b have "2 * length r4 + 3 \<le> n" by simp
              with Suc m have "parse_members m' r4 = parse_members n r4" by blast
              with pv m k0 Some a k2 sv a' Cons show ?thesis by simp
            qed
          qed
        qed
      qed
    qed
  qed
  from v e mm show ?case by blast
qed

theorem JSON_parse_fuel:
  "2 * length s + 2 \<le> m \<Longrightarrow>
   JSON_parse s =
     (case parse_value m s of
        None \<Rightarrow> None
      | Some (v, r) \<Rightarrow> if skip_ws r = [] then Some v else None)"
proof -
  assume "2 * length s + 2 \<le> m"
  with fuel_enough[of "2 * length s + 2"]
  have "parse_value m s = parse_value (2 * length s + 2) s" by blast
  then show ?thesis by (simp add: JSON_parse_def)
qed

section \<open>Properties of the stream consumers\<close>

subsection \<open>Splitting into lines\<close>

lemma split_newline_nonempty [simp]: "split_newline s \<noteq> []"
  by (induction s) (auto split: list.splits)

lemma split_newline_Cons:
  "split_newline (c # cs) =
     (if c = CHR 0x0A then [] # split_newline cs
      else (c # hd (split_newline cs)) # tl (split_newline cs))"
  by (cases "split_newline cs") auto

lemma split_newline_no_LF: "CHR 0x0A \<notin> set s \<Longrightarrow> split_newline s = [s]"
  by (induction s) (auto simp: split_newline_Cons simp del: split_newline.simps(2))

lemma last_split_newline_no_LF: "CHR 0x0A \<notin> set (last (split_newline s))"
proof (induction s)
  case Nil
  show ?case by simp
next
  case (Cons c s)
  then show ?case by (cases "split_newline s") (auto split: if_splits)
qed

lemma split_newline_append:
  "split_newline (a @ b) =
     butlast (split_newline a) @ split_newline (last (split_newline a) @ b)"
proof (induction a)
  case Nil
  show ?case by simp
next
  case (Cons c a)
  show ?case
  proof (cases "split_newline a")
    case Nil
    then show ?thesis by simp
  next
    case (Cons seg segs)
    show ?thesis
    proof (cases segs)
      case Nil
      with Cons Cons.IH show ?thesis
        by (auto simp: split_newline_Cons simp del: split_newline.simps(2))
    next
      case (Cons seg' segs')
      with \<open>split_newline a = seg # segs\<close> Cons.IH show ?thesis
        by (auto simp: split_newline_Cons simp del: split_newline.simps(2))
    qed
  qed
qed

subsection \<open>Chunks and lines of the chat view's consumer\<close>

text \<open>The lines are handled without looking at the buffer, so the consumer sees the
  complete lines of the text read so far, whatever the chunks were.\<close>

lemma on_thinking_buffer:
  "on_thinking data (st\<lparr>buffer := b\<rparr>) = (on_thinking data st)\<lparr>buffer := b\<rparr>"
  by (simp add: on_thinking_def split: option.splits)

lemma on_content_buffer:
  "on_content data (st\<lparr>buffer := b\<rparr>) = (on_content data st)\<lparr>buffer := b\<rparr>"
  by (simp add: on_content_def split: option.splits)

lemma on_tool_call_buffer:
  "on_tool_call data (st\<lparr>buffer := b\<rparr>) = (on_tool_call data st)\<lparr>buffer := b\<rparr>"
  by (simp add: on_tool_call_def split: option.splits)

lemma on_tool_result_buffer:
  "on_tool_result cb data (st\<lparr>buffer := b\<rparr>) = (on_tool_result cb data st)\<lparr>buffer := b\<rparr>"
  by (simp add: on_tool_result_def split: option.splits)

lemma on_done_buffer:
  "on_done showThinking (st\<lparr>buffer := b\<rparr>) = (on_done showThinking st)\<lparr>buffer := b\<rparr>"
  by (simp add: on_done_def)

lemma on_error_buffer:
  "on_error data (st\<lparr>buffer := b\<rparr>) = (on_error data st)\<lparr>buffer := b\<rparr>"
  by (simp add: on_error_def)

lemma on_data_buffer:
  "on_data showThinking cb data (st\<lparr>buffer := b\<rparr>)
     = (on_data showThinking cb data st)\<lparr>buffer := b\<rparr>"
  by (simp add: on_data_def on_thinking_buffer on_content_buffer on_tool_call_buffer
        on_tool_result_buffer on_done_buffer on_error_buffer)

lemma on_line_buffer:
  "on_line parse showThinking cb (st\<lparr>buffer := b\<rparr>) line
     = (on_line parse showThinking cb st line)\<lparr>buffer := b\<rparr>"
  by (simp add: on_line_def on_data_buffer split: option.splits)

lemma foldl_on_line_buffer:
  "foldl (on_line parse showThinking cb) (st\<lparr>buffer := b\<rparr>) ls
     = (foldl (on_line parse showThinking cb) st ls)\<lparr>buffer := b\<rparr>"
  by (induction ls arbitrary: st) (simp_all add: on_line_buffer)

lemma feed_eq:
  "feed parse showThinking cb st chunk =
     (foldl (on_line parse showThinking cb) st (butlast (split_newline (buffer st @ chunk))))
       \<lparr>buffer := last (split_newline (buffer st @ chunk))\<rparr>"
  by (simp add: feed_def Let_def foldl_on_line_buffer)

lemma buffer_foldl_on_line [simp]:
  "buffer (foldl (on_line parse showThinking cb) st ls) = buffer st"
proof -
  have "foldl (on_line parse showThinking cb) st ls
     = (foldl (on_line parse showThinking cb) st ls)\<lparr>buffer := buffer st\<rparr>"
    using foldl_on_line_buffer[where st = st and b = "buffer st" and ls = ls] by simp
  then have "buffer (foldl (on_line parse showThinking cb) st ls)
     = buffer ((foldl (on_line parse showThinking cb) st ls)\<lparr>buffer := buffer st\<rparr>)"
    by simp
  then show ?thesis by simp
qed

lemma feed_append:
  "feed parse showThinking cb (feed parse showThinking cb st a) b = feed parse showThinking cb st (a @ b)"
proof -
  let ?f = "on_line parse showThinking cb"
  let ?r = "last (split_newline (buffer st @ a))"
  have sp: "split_newline (buffer st @ a @ b)
      = butlast (split_newline (buffer st @ a)) @ split_newline (?r @ b)"
    using split_newline_append[of "buffer st @ a" b] by simp
  have "feed parse showThinking cb (feed parse showThinking cb st a) b
      = (foldl ?f (foldl ?f st (butlast (split_newline (buffer st @ a))))
           (butlast (split_newline (?r @ b))))\<lparr>buffer := last (split_newline (?r @ b))\<rparr>"
    by (simp add: feed_eq foldl_on_line_buffer)
  also have "\<dots> = (foldl ?f st (butlast (split_newline (buffer st @ a @ b))))
           \<lparr>buffer := last (split_newline (buffer st @ a @ b))\<rparr>"
    by (simp add: sp butlast_append)
  also have "\<dots> = feed parse showThinking cb st (a @ b)"
    by (simp add: feed_eq)
  finally show ?thesis .
qed

lemma feed_empty:
  "CHR 0x0A \<notin> set (buffer st) \<Longrightarrow> feed parse showThinking cb st [] = st"
  by (simp add: feed_eq split_newline_no_LF)

lemma read_loop_feed_concat:
  "CHR 0x0A \<notin> set (buffer st) \<Longrightarrow>
   read_loop parse showThinking cb st chunks = feed parse showThinking cb st (concat chunks)"
proof (induction chunks arbitrary: st)
  case Nil
  then show ?case by (simp add: read_loop_def feed_empty)
next
  case (Cons c cs)
  have "CHR 0x0A \<notin> set (buffer (feed parse showThinking cb st c))"
    by (simp add: feed_eq last_split_newline_no_LF)
  with Cons.IH[of "feed parse showThinking cb st c"]
  have "read_loop parse showThinking cb (feed parse showThinking cb st c) cs
      = feed parse showThinking cb (feed parse showThinking cb st c) (concat cs)" by simp
  then show ?case by (simp add: read_loop_def feed_append)
qed

lemma read_loop_lines:
  "read_loop parse showThinking cb (start_state prev) chunks
     = (foldl (on_line parse showThinking cb) (start_state prev)
          (butlast (split_newline (concat chunks))))
       \<lparr>buffer := last (split_newline (concat chunks))\<rparr>"
proof -
  have b: "buffer (start_state prev) = []" by (simp add: start_state_def)
  then have "CHR 0x0A \<notin> set (buffer (start_state prev))" by simp
  then have "read_loop parse showThinking cb (start_state prev) chunks
      = feed parse showThinking cb (start_state prev) (concat chunks)"
    by (rule read_loop_feed_concat)
  with b show ?thesis by (simp add: feed_eq)
qed

subsection \<open>The callbacks of the chat API's reader\<close>

lemma nonterminal_OnChunk [simp]: "\<not> terminal (OnChunk d)" "terminal OnComplete" "terminal (OnError m)"
  by (simp_all add: terminal_def)

lemma after_call_not_Continues [simp]: "after_call t \<noteq> Continues"
  by (simp add: after_call_def split: option.splits)

lemma after_call_None [simp]: "after_call None = Returned"
  by (simp add: after_call_def)

text \<open>One line of the loop, by what it is.\<close>

lemma for_lines_other:
  "\<not> startsWith l ''data: '' \<Longrightarrow> for_lines cb (l # ls) = for_lines cb ls"
  by simp





lemma for_lines_cases:
  obtains (other) "\<not> startsWith l ''data: ''"
  | (sentinel) "startsWith l ''data: ''"
      "drop 6 l = ''[DONE]'' \<or> startsWith (drop 6 l) ''[ERROR]''"
  | (payload) "startsWith l ''data: ''" "drop 6 l \<noteq> ''[DONE]''"
      "\<not> startsWith (drop 6 l) ''[ERROR]''"
  by blast

lemma data_line: "startsWith l ''data: '' \<Longrightarrow> l = ''data: '' @ drop 6 l"
  by (auto simp: startsWith_def prefix_def)


lemma for_lines_payload_eq:
  assumes "startsWith l ''data: ''" "drop 6 l \<noteq> ''[DONE]''"
    "\<not> startsWith (drop 6 l) ''[ERROR]''"
  shows "for_lines cb (l # ls)
     = (case onChunk cb (drop 6 l) of
          Some e \<Rightarrow> ([OnChunk (drop 6 l)], Threw e)
        | None \<Rightarrow> (OnChunk (drop 6 l) # fst (for_lines cb ls), snd (for_lines cb ls)))"
  using assms by (simp add: Let_def split: option.splits prod.splits)



text \<open>With callbacks that never throw, the loop over the lines ends after its only
  terminal call, or goes on having made none.\<close>

lemma for_lines_shape:
  assumes nt: "never_throws cb"
  shows "case for_lines cb ls of
     (es, x) \<Rightarrow>
       (x = Continues \<and> list_all (\<lambda>e. \<not> terminal e) es)
       \<or> (x = Returned
           \<and> (\<exists>es' t. es = es' @ [t] \<and> terminal t \<and> list_all (\<lambda>e. \<not> terminal e) es'))"
proof (induction ls)
  case Nil
  show ?case by simp
next
  case (Cons l ls)
  from nt have c: "onChunk cb d = None" "onComplete cb = None" "onError cb m = None" for d m
    by (simp_all add: never_throws_def)
  show ?case
  proof (cases l rule: for_lines_cases)
    case other
    with Cons show ?thesis by simp
  next
    case sentinel
    then have "for_lines cb (l # ls) = ([OnComplete], Returned)
        \<or> for_lines cb (l # ls) = ([OnError (drop 8 (drop 6 l))], Returned)"
      using c by (auto simp: Let_def)
    then show ?thesis
    proof
      assume "for_lines cb (l # ls) = ([OnComplete], Returned)"
      moreover have "[OnComplete] = [] @ [OnComplete] \<and> terminal OnComplete
          \<and> list_all (\<lambda>e. \<not> terminal e) []" by simp
      ultimately show ?thesis by simp
    next
      assume "for_lines cb (l # ls) = ([OnError (drop 8 (drop 6 l))], Returned)"
      moreover have "[OnError (drop 8 (drop 6 l))] = [] @ [OnError (drop 8 (drop 6 l))]
          \<and> terminal (OnError (drop 8 (drop 6 l))) \<and> list_all (\<lambda>e. \<not> terminal e) []" by simp
      ultimately show ?thesis by simp
    qed
  next
    case payload
    obtain es x where fl: "for_lines cb ls = (es, x)" by (cases "for_lines cb ls")
    with for_lines_payload_eq[OF payload, of cb ls] c
    have eq: "for_lines cb (l # ls) = (OnChunk (drop 6 l) # es, x)" by simp
    from Cons fl consider (go) "x = Continues" "list_all (\<lambda>e. \<not> terminal e) es"
      | (ret) es' t where "x = Returned" "es = es' @ [t]" "terminal t"
          "list_all (\<lambda>e. \<not> terminal e) es'"
      by auto
    then show ?thesis
    proof cases
      case go
      with eq show ?thesis by simp
    next
      case ret
      then have "OnChunk (drop 6 l) # es = (OnChunk (drop 6 l) # es') @ [t] \<and> terminal t
          \<and> list_all (\<lambda>e. \<not> terminal e) (OnChunk (drop 6 l) # es')" by simp
      then have "\<exists>es'' t. OnChunk (drop 6 l) # es = es'' @ [t] \<and> terminal t
          \<and> list_all (\<lambda>e. \<not> terminal e) es''" by blast
      with eq ret(1) show ?thesis by simp
    qed
  qed
qed

lemma try_body_shape:
  assumes nt: "never_throws cb"
  shows "\<exists>es t. try_body cb chunks = (es @ [t], Returned) \<and> terminal t
     \<and> list_all (\<lambda>e. \<not> terminal e) es"
proof (induction chunks)
  case Nil
  from nt have "onComplete cb = None" by (simp add: never_throws_def)
  then have "try_body cb [] = ([] @ [OnComplete], Returned) \<and> terminal OnComplete
      \<and> list_all (\<lambda>e. \<not> terminal e) []" by simp
  then show ?case by blast
next
  case (Cons c cs)
  obtain es x where fl: "for_lines cb (split_newline c) = (es, x)"
    by (cases "for_lines cb (split_newline c)")
  with for_lines_shape[OF nt, of "split_newline c"]
  consider (go) "x = Continues" "list_all (\<lambda>e. \<not> terminal e) es"
    | (ret) es' t where "x = Returned" "es = es' @ [t]" "terminal t"
        "list_all (\<lambda>e. \<not> terminal e) es'"
    by auto
  then show ?case
  proof cases
    case go
    from Cons obtain es' t where s: "try_body cb cs = (es' @ [t], Returned)" "terminal t"
        "list_all (\<lambda>e. \<not> terminal e) es'" by blast
    with fl go have "try_body cb (c # cs) = ((es @ es') @ [t], Returned)" by simp
    moreover from go s have "list_all (\<lambda>e. \<not> terminal e) (es @ es')" by simp
    ultimately show ?thesis using s(2) by blast
  next
    case ret
    with fl have "try_body cb (c # cs) = (es' @ [t], Returned)" by simp
    with ret show ?thesis by blast
  qed
qed

lemma streamMessage_shape:
  assumes "never_throws cb"
  shows "\<exists>es t. streamMessage cb chunks = es @ [t] \<and> terminal t
     \<and> list_all (\<lambda>e. \<not> terminal e) es"
proof -
  from try_body_shape[OF assms, of chunks]
  obtain es t where "try_body cb chunks = (es @ [t], Returned)" "terminal t"
      "list_all (\<lambda>e. \<not> terminal e) es" by blast
  then have "streamMessage cb chunks = es @ [t] \<and> terminal t
      \<and> list_all (\<lambda>e. \<not> terminal e) es" by (simp add: streamMessage_def)
  then show ?thesis by blast
qed



lemma try_body_no_sentinel:
  "\<forall>c \<in> set chunks. snd (for_lines cb (split_newline c)) = Continues \<Longrightarrow>
   try_body cb chunks
     = (concat (map (\<lambda>c. fst (for_lines cb (split_newline c))) chunks) @ [OnComplete],
        after_call (onComplete cb))"
  by (induction chunks) (auto split: prod.splits)

lemma streamMessage_no_sentinel:
  assumes "never_throws cb" "\<forall>c \<in> set chunks. snd (for_lines cb (split_newline c)) = Continues"
  shows "streamMessage cb chunks
     = concat (map (\<lambda>c. fst (for_lines cb (split_newline c))) chunks) @ [OnComplete]"
proof -
  from assms(1) have "onComplete cb = None" by (simp add: never_throws_def)
  with try_body_no_sentinel[OF assms(2)] show ?thesis by (simp add: streamMessage_def)
qed

lemma filter_terminal_streamMessage:
  assumes "never_throws cb"
  shows "filter terminal (streamMessage cb chunks) = [last (streamMessage cb chunks)]"
proof -
  obtain es t where s: "streamMessage cb chunks = es @ [t]" "terminal t"
      "list_all (\<lambda>e. \<not> terminal e) es"
    using streamMessage_shape[OF assms] by blast
  then have "filter terminal es = []" by (simp add: list_all_iff)
  with s show ?thesis by simp
qed

text \<open>A callback that throws: the \<open>catch\<close> calls \<open>onError\<close> with what was thrown.  When
  \<open>onComplete\<close> throws at the end of the transport, the run makes two terminal calls; when
  \<open>onChunk\<close> throws, the lines after it are not read.\<close>

lemma streamMessage_catch:
  "streamMessage \<lparr>onChunk = (\<lambda>d. None), onComplete = Some ''x'', onError = (\<lambda>m. None)\<rparr> []
     = [OnComplete, OnError ''x'']"
  "streamMessage \<lparr>onChunk = (\<lambda>d. Some d), onComplete = None, onError = (\<lambda>m. None)\<rparr>
       [terminated [''data: a'', ''data: b'']]
     = [OnChunk ''a'', OnError ''a'']"
  by code_simp+

subsection \<open>The branches of the consumer\<close>

lemmas literal_tests = if_False if_True option.inject json.inject list.inject char.inject
  option.distinct json.distinct list.distinct simp_thms

lemma typed_not_null: "get_prop data ''type'' = Some t \<Longrightarrow> data \<noteq> JNull"
  by auto

lemma on_data_null: "on_data showThinking cb JNull st = st\<lparr>console := console st @ [TypeError]\<rparr>"
  by (simp add: on_data_def)

lemma on_data_thinking:
  assumes "get_prop data ''type'' = Some (JStr ''thinking'')"
  shows "on_data showThinking cb data st = on_thinking data st"
proof -
  from assms have n: "data \<noteq> JNull" by (rule typed_not_null)
  show ?thesis unfolding on_data_def using n assms by (simp only: literal_tests)
qed

lemma on_data_content:
  assumes "get_prop data ''type'' = Some (JStr ''content'')"
  shows "on_data showThinking cb data st = on_content data st"
proof -
  from assms have n: "data \<noteq> JNull" by (rule typed_not_null)
  show ?thesis unfolding on_data_def using n assms by (simp only: literal_tests)
qed

lemma on_data_tool_call:
  assumes "get_prop data ''type'' = Some (JStr ''tool_call'')"
  shows "on_data showThinking cb data st = on_tool_call data st"
proof -
  from assms have n: "data \<noteq> JNull" by (rule typed_not_null)
  show ?thesis unfolding on_data_def using n assms by (simp only: literal_tests)
qed

lemma on_data_tool_result:
  assumes "get_prop data ''type'' = Some (JStr ''tool_result'')"
  shows "on_data showThinking cb data st = on_tool_result cb data st"
proof -
  from assms have n: "data \<noteq> JNull" by (rule typed_not_null)
  show ?thesis unfolding on_data_def using n assms by (simp only: literal_tests)
qed

lemma on_data_done:
  assumes "get_prop data ''type'' = Some (JStr ''done'')"
  shows "on_data showThinking cb data st = on_done showThinking st"
proof -
  from assms have n: "data \<noteq> JNull" by (rule typed_not_null)
  show ?thesis unfolding on_data_def using n assms by (simp only: literal_tests)
qed

lemma on_data_error:
  assumes "get_prop data ''type'' = Some (JStr ''error'')"
  shows "on_data showThinking cb data st = on_error data st"
proof -
  from assms have n: "data \<noteq> JNull" by (rule typed_not_null)
  show ?thesis unfolding on_data_def using n assms by (simp only: literal_tests)
qed

lemma is_event_data:
  assumes "is_event parse ty l"
  obtains data where "startsWith l ''data: ''" "parse (drop 6 l) = Some data"
    "get_prop data ''type'' = Some (JStr ty)"
  using assms by (auto simp: is_event_def split: option.splits)

lemma on_line_event:
  assumes "startsWith l ''data: ''" "parse (drop 6 l) = Some data"
  shows "on_line parse showThinking cb st l = on_data showThinking cb data st"
  using assms by (simp add: on_line_def)

lemma on_line_done:
  assumes "is_event parse ''done'' d"
  shows "on_line parse showThinking cb st d = on_done showThinking st"
proof -
  from assms obtain data where d: "startsWith d ''data: ''" "parse (drop 6 d) = Some data"
    "get_prop data ''type'' = Some (JStr ''done'')" by (rule is_event_data)
  from d(1,2) have "on_line parse showThinking cb st d = on_data showThinking cb data st"
    by (rule on_line_event)
  with d(3) show ?thesis by (simp only: on_data_done)
qed

text \<open>Conversion to text, on values of every kind.\<close>

lemma to_str_examples:
  "to_str JNull = Some ''null''"
  "to_str (JBool False) = Some ''false''"
  "to_str (JNum ''42'') = Some ''42''"
  "to_str (JArr [JNum ''1'', JNull, JArr [JStr ''a'', JBool True], JArr []]) = Some ''1,,a,true,''"
  "to_str (JObj [(''a'', JNum ''1'')]) = Some ''[object Object]''"
  "to_str (JObj [(''a'', JNum ''1''), (''toString'', JStr ''x'')]) = None"
  "to_str (JArr [JNum ''1'', JObj [(''toString'', JNull)]]) = None"
  "to_string None = Some ''undefined''"
  by code_simp+

text \<open>What the \<open>try\<close> block throws, and where it stops: a \<open>content\<close> that does not
  convert to text leaves the flags set and the buffer alone; an event of type \<open>error\<close>
  is logged with its message, empty when there is no \<open>error\<close> field; \<open>null\<close> has no
  \<open>type\<close> to read; values without a \<open>type\<close>, and types the chain does not know, do
  nothing.\<close>

lemma on_data_examples:
  "on_data True None
       (JObj [(''type'', JStr ''thinking''), (''content'', JObj [(''toString'', JNull)])])
       (start_state [])
     = start_state []\<lparr>inThinking := True, console := [TypeError]\<rparr>"
  "on_data True None
       (JObj [(''type'', JStr ''content''), (''content'', JObj [(''toString'', JNull)])])
       (start_state []\<lparr>inThinking := True\<rparr>)
     = start_state []\<lparr>inAnswer := True, console := [TypeError]\<rparr>"
  "on_data True None (JObj [(''type'', JStr ''content'')]) (start_state [])
     = start_state []\<lparr>inAnswer := True, contentBuffer := ''undefined'',
         currentContent := ''undefined''\<rparr>"
  "on_data True None (JObj [(''type'', JStr ''error''), (''error'', JStr ''boom'')])
       (start_state [])
     = start_state []\<lparr>console := [Error ''boom'']\<rparr>"
  "on_data True None (JObj [(''type'', JStr ''error'')]) (start_state [])
     = start_state []\<lparr>console := [Error []]\<rparr>"
  "on_data True None (JObj [(''type'', JStr ''error''), (''error'', JObj [(''toString'', JNull)])])
       (start_state [])
     = start_state []\<lparr>console := [TypeError]\<rparr>"
  "on_data True None JNull (start_state []) = start_state []\<lparr>console := [TypeError]\<rparr>"
  "on_data True None (JNum ''5'') (start_state []) = start_state []"
  "on_data True None (JObj [(''type'', JStr ''ping'')]) (start_state []) = start_state []"
  "on_data True (Some file_toast)
       (JObj [(''type'', JStr ''tool_result''), (''tool_name'', JStr ''edit_file''),
              (''tool_args'', JObj [(''file_path'', JStr ''a/b.ts'')])])
       (start_state [])
     = start_state []\<lparr>pending := [SetToolResult None],
         fileModified := [Some (JStr ''a/b.ts'')]\<rparr>"
  by code_simp+

text \<open>The two buffers: only the branch of its own type touches a buffer.\<close>

lemma buffers_on_thinking:
  "contentBuffer (on_thinking data st) = contentBuffer st"
  "thinkingBuffer (on_thinking data st)
     = thinkingBuffer st
       @ (case to_string (get_prop data ''content'') of None \<Rightarrow> [] | Some text \<Rightarrow> text)"
  by (simp_all add: on_thinking_def split: option.splits)

lemma buffers_on_content:
  "thinkingBuffer (on_content data st) = thinkingBuffer st"
  "contentBuffer (on_content data st)
     = contentBuffer st
       @ (case to_string (get_prop data ''content'') of None \<Rightarrow> [] | Some text \<Rightarrow> text)"
  by (simp_all add: on_content_def split: option.splits)

lemma buffers_on_tool_call:
  "contentBuffer (on_tool_call data st) = contentBuffer st"
  "thinkingBuffer (on_tool_call data st) = thinkingBuffer st"
  by (simp_all add: on_tool_call_def split: option.splits)

lemma buffers_on_tool_result:
  "contentBuffer (on_tool_result cb data st) = contentBuffer st"
  "thinkingBuffer (on_tool_result cb data st) = thinkingBuffer st"
  by (simp_all add: on_tool_result_def split: option.splits)

lemma buffers_on_done:
  "contentBuffer (on_done showThinking st) = contentBuffer st"
  "thinkingBuffer (on_done showThinking st) = thinkingBuffer st"
  by (simp_all add: on_done_def)

lemma buffers_on_error:
  "contentBuffer (on_error data st) = contentBuffer st"
  "thinkingBuffer (on_error data st) = thinkingBuffer st"
  by (simp_all add: on_error_def)

lemmas buffers_branches = buffers_on_thinking buffers_on_content buffers_on_tool_call
  buffers_on_tool_result buffers_on_done buffers_on_error

lemma contentBuffer_on_data:
  "contentBuffer (on_data showThinking cb data st)
     = contentBuffer st
       @ (if get_prop data ''type'' = Some (JStr ''content'')
          then (case to_string (get_prop data ''content'') of None \<Rightarrow> [] | Some text \<Rightarrow> text)
          else [])"
  by (simp add: on_data_def buffers_branches)

lemma thinkingBuffer_on_data:
  "thinkingBuffer (on_data showThinking cb data st)
     = thinkingBuffer st
       @ (if get_prop data ''type'' = Some (JStr ''thinking'')
          then (case to_string (get_prop data ''content'') of None \<Rightarrow> [] | Some text \<Rightarrow> text)
          else [])"
  by (simp add: on_data_def buffers_branches)

lemma contentBuffer_on_line:
  "contentBuffer (on_line parse showThinking cb st l)
     = contentBuffer st @ delta parse ''content'' l"
  by (simp add: on_line_def contentBuffer_on_data delta_def is_event_def split: option.splits)

lemma thinkingBuffer_on_line:
  "thinkingBuffer (on_line parse showThinking cb st l)
     = thinkingBuffer st @ delta parse ''thinking'' l"
  by (simp add: on_line_def thinkingBuffer_on_data delta_def is_event_def split: option.splits)

lemma contentBuffer_foldl:
  "contentBuffer (foldl (on_line parse showThinking cb) st ls)
     = contentBuffer st @ concat (map (delta parse ''content'') ls)"
  by (induction ls arbitrary: st) (simp_all add: contentBuffer_on_line)

lemma thinkingBuffer_foldl:
  "thinkingBuffer (foldl (on_line parse showThinking cb) st ls)
     = thinkingBuffer st @ concat (map (delta parse ''thinking'') ls)"
  by (induction ls arbitrary: st) (simp_all add: thinkingBuffer_on_line)

text \<open>The loop only queues updaters: the messages are React's to change.\<close>

lemma messages_on_data: "messages (on_data showThinking cb data st) = messages st"
  by (simp add: on_data_def on_thinking_def on_content_def on_tool_call_def
        on_tool_result_def on_done_def on_error_def split: option.splits)

lemma messages_on_line: "messages (on_line parse showThinking cb st l) = messages st"
  by (simp add: on_line_def messages_on_data split: option.splits)

lemma messages_foldl: "messages (foldl (on_line parse showThinking cb) st ls) = messages st"
  by (induction ls arbitrary: st) (simp_all add: messages_on_line)

text \<open>The console: what a line logs does not depend on the state.\<close>

lemma on_thinking_console:
  "on_thinking data (st\<lparr>console := x\<rparr>)
     = (on_thinking data st)
         \<lparr>console := x @ (case to_string (get_prop data ''content'') of
                            None \<Rightarrow> [TypeError] | Some text \<Rightarrow> [])\<rparr>"
  by (simp add: on_thinking_def split: option.splits)

lemma on_content_console:
  "on_content data (st\<lparr>console := x\<rparr>)
     = (on_content data st)
         \<lparr>console := x @ (case to_string (get_prop data ''content'') of
                            None \<Rightarrow> [TypeError] | Some text \<Rightarrow> [])\<rparr>"
  by (simp add: on_content_def split: option.splits)

lemma on_tool_call_console:
  "on_tool_call data (st\<lparr>console := x\<rparr>)
     = (on_tool_call data st)
         \<lparr>console := x @ (case to_string (get_prop data ''tool_name'') of
                            None \<Rightarrow> [TypeError] | Some tool_name \<Rightarrow> [])\<rparr>"
  by (simp add: on_tool_call_def split: option.splits)

lemma on_tool_result_console:
  "on_tool_result cb data (st\<lparr>console := x\<rparr>)
     = (on_tool_result cb data st)
         \<lparr>console := x @
            (if get_prop data ''tool_name'' = Some (JStr ''write_file'')
                \<or> get_prop data ''tool_name'' = Some (JStr ''edit_file'')
             then (case cb of
                     None \<Rightarrow> []
                   | Some called \<Rightarrow>
                       (case called (file_path_of data) of None \<Rightarrow> [] | Some e \<Rightarrow> [e]))
             else [])\<rparr>"
  by (simp add: on_tool_result_def split: option.splits)

lemma on_done_console:
  "on_done showThinking (st\<lparr>console := x\<rparr>) = (on_done showThinking st)\<lparr>console := x\<rparr>"
  by (simp add: on_done_def)

lemma on_error_console:
  "on_error data (st\<lparr>console := x\<rparr>)
     = (on_error data st)
         \<lparr>console := x @
            [case get_prop data ''error'' of
               None \<Rightarrow> Error []
             | Some e \<Rightarrow> (case to_str e of None \<Rightarrow> TypeError | Some m \<Rightarrow> Error m)]\<rparr>"
  by (simp add: on_error_def)

lemma on_data_console:
  "on_data showThinking cb data (st\<lparr>console := x\<rparr>)
     = (on_data showThinking cb data st)\<lparr>console := x @ thrown cb data\<rparr>"
proof (cases "data = JNull")
  case True
  then show ?thesis by (simp add: on_data_def thrown_def)
next
  case n: False
  consider (thinking) "get_prop data ''type'' = Some (JStr ''thinking'')"
    | (content) "get_prop data ''type'' = Some (JStr ''content'')"
    | (tool_call) "get_prop data ''type'' = Some (JStr ''tool_call'')"
    | (tool_result) "get_prop data ''type'' = Some (JStr ''tool_result'')"
    | (finish) "get_prop data ''type'' = Some (JStr ''done'')"
    | (error) "get_prop data ''type'' = Some (JStr ''error'')"
    | (other) "get_prop data ''type'' \<noteq> Some (JStr ''thinking'')"
        "get_prop data ''type'' \<noteq> Some (JStr ''content'')"
        "get_prop data ''type'' \<noteq> Some (JStr ''tool_call'')"
        "get_prop data ''type'' \<noteq> Some (JStr ''tool_result'')"
        "get_prop data ''type'' \<noteq> Some (JStr ''done'')"
        "get_prop data ''type'' \<noteq> Some (JStr ''error'')"
    by blast
  then show ?thesis
  proof cases
    case thinking
    then have "thrown cb data
        = (case to_string (get_prop data ''content'') of None \<Rightarrow> [TypeError] | Some text \<Rightarrow> [])"
      unfolding thrown_def using n by (simp only: literal_tests)
    with thinking show ?thesis by (simp only: on_data_thinking on_thinking_console)
  next
    case content
    then have "thrown cb data
        = (case to_string (get_prop data ''content'') of None \<Rightarrow> [TypeError] | Some text \<Rightarrow> [])"
      unfolding thrown_def using n by (simp only: literal_tests)
    with content show ?thesis by (simp only: on_data_content on_content_console)
  next
    case tool_call
    then have "thrown cb data
        = (case to_string (get_prop data ''tool_name'') of
             None \<Rightarrow> [TypeError] | Some tool_name \<Rightarrow> [])"
      unfolding thrown_def using n by (simp only: literal_tests)
    with tool_call show ?thesis by (simp only: on_data_tool_call on_tool_call_console)
  next
    case tool_result
    then have "thrown cb data
        = (if get_prop data ''tool_name'' = Some (JStr ''write_file'')
                \<or> get_prop data ''tool_name'' = Some (JStr ''edit_file'')
             then (case cb of
                     None \<Rightarrow> []
                   | Some called \<Rightarrow>
                       (case called (file_path_of data) of None \<Rightarrow> [] | Some e \<Rightarrow> [e]))
             else [])"
      unfolding thrown_def using n by (simp only: literal_tests)
    with tool_result show ?thesis by (simp only: on_data_tool_result on_tool_result_console)
  next
    case finish
    then have "thrown cb data = []"
      unfolding thrown_def using n by (simp only: literal_tests)
    with finish show ?thesis by (simp only: on_data_done on_done_console append_Nil2)
  next
    case error
    then have "thrown cb data
        = [case get_prop data ''error'' of
               None \<Rightarrow> Error []
             | Some e \<Rightarrow> (case to_str e of None \<Rightarrow> TypeError | Some m \<Rightarrow> Error m)]"
      unfolding thrown_def using n by (simp only: literal_tests)
    with error show ?thesis by (simp only: on_data_error on_error_console)
  next
    case other
    then have "thrown cb data = []"
      unfolding thrown_def using n by (simp only: literal_tests)
    moreover from other n have "on_data showThinking cb data s = s" for s
      unfolding on_data_def by (simp only: literal_tests)
    ultimately show ?thesis by simp
  qed
qed

lemma on_line_console:
  "on_line parse showThinking cb (st\<lparr>console := x\<rparr>) l
     = (on_line parse showThinking cb st l)\<lparr>console := x @ logged parse cb l\<rparr>"
  by (simp add: on_line_def logged_def on_data_console split: option.splits)

lemma foldl_on_line_console:
  "foldl (on_line parse showThinking cb) (st\<lparr>console := x\<rparr>) ls
     = (foldl (on_line parse showThinking cb) st ls)
         \<lparr>console := x @ concat (map (logged parse cb) ls)\<rparr>"
proof (induction ls arbitrary: st x)
  case Nil
  show ?case by simp
next
  case (Cons l ls)
  have "foldl (on_line parse showThinking cb) (st\<lparr>console := x\<rparr>) (l # ls)
      = foldl (on_line parse showThinking cb)
          ((on_line parse showThinking cb st l)\<lparr>console := x @ logged parse cb l\<rparr>) ls"
    by (simp add: on_line_console)
  also have "\<dots> = (foldl (on_line parse showThinking cb) (on_line parse showThinking cb st l) ls)
         \<lparr>console := (x @ logged parse cb l) @ concat (map (logged parse cb) ls)\<rparr>"
    by (rule Cons.IH)
  finally show ?case by simp
qed

lemma console_foldl_on_line:
  "console (foldl (on_line parse showThinking cb) st ls)
     = console st @ concat (map (logged parse cb) ls)"
proof -
  have "foldl (on_line parse showThinking cb) (st\<lparr>console := console st\<rparr>) ls
     = (foldl (on_line parse showThinking cb) st ls)
         \<lparr>console := console st @ concat (map (logged parse cb) ls)\<rparr>"
    by (rule foldl_on_line_console)
  then have "console (foldl (on_line parse showThinking cb) st ls)
     = console ((foldl (on_line parse showThinking cb) st ls)
         \<lparr>console := console st @ concat (map (logged parse cb) ls)\<rparr>)" by simp
  then show ?thesis by simp
qed

lemma on_line_malformed:
  "startsWith l ''data: '' \<Longrightarrow> parse (drop 6 l) = None \<Longrightarrow>
   on_line parse showThinking cb st l = st\<lparr>console := console st @ [SyntaxError]\<rparr>"
  by (simp add: on_line_def)

text \<open>React's renders in between.\<close>

text \<open>What React has done so far plays no part in what a line does: the loop reads
  neither the messages nor the queue, it only adds to the queue.\<close>

lemma on_thinking_rendered:
  "on_thinking data (st\<lparr>messages := m, pending := p\<rparr>)
     = (on_thinking data st)
         \<lparr>messages := m, pending := p @ drop (length (pending st)) (pending (on_thinking data st))\<rparr>"
  by (simp add: on_thinking_def split: option.splits)

lemma on_content_rendered:
  "on_content data (st\<lparr>messages := m, pending := p\<rparr>)
     = (on_content data st)
         \<lparr>messages := m, pending := p @ drop (length (pending st)) (pending (on_content data st))\<rparr>"
  by (simp add: on_content_def split: option.splits)

lemma on_tool_call_rendered:
  "on_tool_call data (st\<lparr>messages := m, pending := p\<rparr>)
     = (on_tool_call data st)
         \<lparr>messages := m, pending := p @ drop (length (pending st)) (pending (on_tool_call data st))\<rparr>"
  by (simp add: on_tool_call_def split: option.splits)

lemma on_tool_result_rendered:
  "on_tool_result fm data (st\<lparr>messages := m, pending := p\<rparr>)
     = (on_tool_result fm data st)
         \<lparr>messages := m,
          pending := p @ drop (length (pending st)) (pending (on_tool_result fm data st))\<rparr>"
  by (simp add: on_tool_result_def split: option.splits)

lemma on_done_rendered:
  "on_done showThinking (st\<lparr>messages := m, pending := p\<rparr>)
     = (on_done showThinking st)
         \<lparr>messages := m,
          pending := p @ drop (length (pending st)) (pending (on_done showThinking st))\<rparr>"
  by (simp add: on_done_def)

lemma on_error_rendered:
  "on_error data (st\<lparr>messages := m, pending := p\<rparr>)
     = (on_error data st)
         \<lparr>messages := m, pending := p @ drop (length (pending st)) (pending (on_error data st))\<rparr>"
  by (simp add: on_error_def)

lemma on_data_rendered:
  "on_data showThinking fm data (st\<lparr>messages := m, pending := p\<rparr>)
     = (on_data showThinking fm data st)
         \<lparr>messages := m,
          pending := p @ drop (length (pending st)) (pending (on_data showThinking fm data st))\<rparr>"
  by (simp add: on_data_def on_thinking_rendered on_content_rendered on_tool_call_rendered
        on_tool_result_rendered on_done_rendered on_error_rendered)

lemma on_line_rendered:
  "on_line parse showThinking fm (st\<lparr>messages := m, pending := p\<rparr>) l
     = (on_line parse showThinking fm st l)
         \<lparr>messages := m,
          pending := p @ drop (length (pending st)) (pending (on_line parse showThinking fm st l))\<rparr>"
  by (simp add: on_line_def on_data_rendered split: option.splits)

lemma take_length_le: "take (length p) xs = p \<Longrightarrow> length p \<le> length xs"
proof -
  assume "take (length p) xs = p"
  then have "length (take (length p) xs) = length p" by simp
  then show ?thesis by simp
qed

lemma pending_branches:
  "take (length (pending st)) (pending (on_thinking data st)) = pending st"
  "take (length (pending st)) (pending (on_content data st)) = pending st"
  "take (length (pending st)) (pending (on_tool_call data st)) = pending st"
  "take (length (pending st)) (pending (on_tool_result fm data st)) = pending st"
  "take (length (pending st)) (pending (on_done showThinking st)) = pending st"
  "take (length (pending st)) (pending (on_error data st)) = pending st"
  by (simp_all add: on_thinking_def on_content_def on_tool_call_def on_tool_result_def
        on_done_def on_error_def split: option.splits)

lemma pending_on_data:
  "take (length (pending st)) (pending (on_data showThinking fm data st)) = pending st"
  by (simp add: on_data_def pending_branches)

lemma pending_on_line:
  "take (length (pending st)) (pending (on_line parse showThinking fm st l)) = pending st"
  by (simp add: on_line_def pending_on_data split: option.splits)

lemma pending_foldl:
  "take (length (pending st)) (pending (foldl (on_line parse showThinking fm) st ls)) = pending st"
proof (induction ls arbitrary: st)
  case Nil
  show ?case by simp
next
  case (Cons l ls)
  let ?st = "on_line parse showThinking fm st l"
  from pending_on_line[of st parse showThinking fm l]
  have le: "length (pending st) \<le> length (pending ?st)"
    by (rule take_length_le)
  have "take (length (pending st)) (pending (foldl (on_line parse showThinking fm) ?st ls))
      = take (length (pending st))
          (take (length (pending ?st)) (pending (foldl (on_line parse showThinking fm) ?st ls)))"
    using le by (simp add: min_def)
  also have "\<dots> = take (length (pending st)) (pending ?st)" by (simp only: Cons.IH)
  also have "\<dots> = pending st" by (rule pending_on_line)
  finally show ?case by simp
qed

lemma foldl_on_line_rendered:
  "foldl (on_line parse showThinking fm) (st\<lparr>messages := m, pending := p\<rparr>) ls
     = (foldl (on_line parse showThinking fm) st ls)
         \<lparr>messages := m,
          pending := p @ drop (length (pending st))
                           (pending (foldl (on_line parse showThinking fm) st ls))\<rparr>"
proof (induction ls arbitrary: st p)
  case Nil
  show ?case by simp
next
  case (Cons l ls)
  let ?f = "on_line parse showThinking fm"
  let ?st = "?f st l"
  let ?end = "foldl ?f ?st ls"
  have pre1: "take (length (pending st)) (pending ?st) = pending st" by (rule pending_on_line)
  have pre2: "take (length (pending ?st)) (pending ?end) = pending ?st" by (rule pending_foldl)
  from pre1 have le: "length (pending st) \<le> length (pending ?st)"
    by (rule take_length_le)
  have split: "drop (length (pending st)) (pending ?end)
      = drop (length (pending st)) (pending ?st) @ drop (length (pending ?st)) (pending ?end)"
  proof -
    have "pending ?end = pending ?st @ drop (length (pending ?st)) (pending ?end)"
      using pre2 by (metis append_take_drop_id)
    then have "drop (length (pending st)) (pending ?end)
        = drop (length (pending st)) (pending ?st @ drop (length (pending ?st)) (pending ?end))"
      by simp
    also have "\<dots> = drop (length (pending st)) (pending ?st)
          @ drop (length (pending ?st)) (pending ?end)"
      using le by simp
    finally show ?thesis .
  qed
  have "foldl ?f (st\<lparr>messages := m, pending := p\<rparr>) (l # ls)
      = foldl ?f (?st\<lparr>messages := m,
                       pending := p @ drop (length (pending st)) (pending ?st)\<rparr>) ls"
    by (simp add: on_line_rendered)
  also have "\<dots> = ?end\<lparr>messages := m,
        pending := (p @ drop (length (pending st)) (pending ?st))
                   @ drop (length (pending ?st)) (pending ?end)\<rparr>"
    by (rule Cons.IH)
  finally show ?case using split by simp
qed

text \<open>So when React has rendered \<open>n\<close> of the pending updaters before the lines \<open>ls\<close> are
  handled, the variables of the loop, the live texts, the console and the calls of
  \<open>onFileModified\<close> end as they do without it; the queue is shorter by these \<open>n\<close>.\<close>

lemma react_then_lines:
  assumes "n \<le> length (pending st)"
  shows "foldl (on_line parse showThinking fm) (react n st) ls
     = (foldl (on_line parse showThinking fm) st ls)
         \<lparr>messages := messages (react n st),
          pending := drop n (pending (foldl (on_line parse showThinking fm) st ls))\<rparr>"
proof -
  let ?end = "foldl (on_line parse showThinking fm) st ls"
  have pre: "take (length (pending st)) (pending ?end) = pending st" by (rule pending_foldl)
  then have "pending ?end = pending st @ drop (length (pending st)) (pending ?end)"
    by (metis append_take_drop_id)
  then have "drop n (pending ?end)
      = drop n (pending st @ drop (length (pending st)) (pending ?end))" by simp
  also have "\<dots> = drop n (pending st) @ drop (length (pending st)) (pending ?end)"
    using assms by simp
  finally have d: "drop n (pending ?end)
      = drop n (pending st) @ drop (length (pending st)) (pending ?end)" .
  have "react n st = st\<lparr>messages := messages (react n st), pending := drop n (pending st)\<rparr>"
    by (simp add: react_def)
  then have "foldl (on_line parse showThinking fm) (react n st) ls
      = foldl (on_line parse showThinking fm)
          (st\<lparr>messages := messages (react n st), pending := drop n (pending st)\<rparr>) ls"
    by simp
  also have "\<dots> = ?end\<lparr>messages := messages (react n st),
        pending := drop n (pending st) @ drop (length (pending st)) (pending ?end)\<rparr>"
    by (rule foldl_on_line_rendered)
  finally show ?thesis using d by simp
qed





section \<open>The claims about the stream consumers\<close>

subsection \<open>Chunk boundaries\<close>

text \<open>The consumer of the chat view carries the unterminated tail of each chunk over to
  the next one: whatever the chunks, it ends in the state the whole text, read as one
  chunk, leaves.\<close>

theorem read_loop_chunking:
  "read_loop parse showThinking fm (start_state prev) chunks
     = read_loop parse showThinking fm (start_state prev) [concat chunks]"
proof -
  have "CHR 0x0A \<notin> set (buffer (start_state prev))" by (simp add: start_state_def)
  then show ?thesis by (simp add: read_loop_feed_concat)
qed

text \<open>
  Claim C1, on the reader of the chat API.  \<open>streamMessage\<close> splits each chunk into
  lines by itself and keeps no tail, so a line cut by a chunk boundary is lost: the text
  \<open>data: [ERROR] boom\<close> in one chunk calls \<open>onError\<close>, cut after \<open>[ERR\<close> it calls
  \<open>onChunk\<close> with the fragment and then \<open>onComplete\<close>; \<open>data: hello\<close> delivered one
  character per chunk calls \<open>onComplete\<close> alone.  (No callback throws here.)
\<close>

theorem streamMessage_split_line:
  "streamMessage quiet [''data: [ERROR] boom\<newline>''] = [OnError ''boom'']
   \<and> streamMessage quiet [''data: [ERR'', ''OR] boom\<newline>''] = [OnChunk ''[ERR'', OnComplete]
   \<and> streamMessage quiet [''data: hello\<newline>''] = [OnChunk ''hello'', OnComplete]
   \<and> streamMessage quiet (map (\<lambda>c. [c]) ''data: hello\<newline>'') = [OnComplete]"
  by code_simp

subsection \<open>Terminal forms\<close>




subsection \<open>After a terminal event\<close>




subsection \<open>Malformed lines\<close>

text \<open>A line that is not JSON leaves a \<open>SyntaxError\<close> on the console and nothing else:
  no message tells of it, and no event with the text \<open>malformed event payload\<close> exists.
  The content and the \<open>done\<close> after it are decoded, and React appends the assistant
  message the \<open>done\<close> queued.\<close>

theorem malformed_line_counterexample:
  "react 1 (read_loop JSON_parse True None (start_state [])
       [terminated [''data: {bad'', content_hi, done_line]])
     = \<lparr>buffer = [], thinkingBuffer = [], contentBuffer = ''Hi'', inThinking = False,
        inAnswer = True, messages = [assistant_message ''Hi''], pending = [],
        currentThinking = [], currentContent = [], fileModified = [],
        console = [SyntaxError]\<rparr>"
  by code_simp

text \<open>
  Claim C4, as the code has it.  A data line whose payload fails JSON parsing changes
  nothing but the console, which gets the \<open>SyntaxError\<close> for that line only; the lines
  after it are decoded as if it had not been there: the run with the line ends in the
  state of the run without it, but for that one entry of the console.
\<close>

theorem malformed_line_skipped:
  "startsWith l ''data: '' \<and> parse (drop 6 l) = None \<Longrightarrow>
     on_line parse showThinking fm st l = st\<lparr>console := console st @ [SyntaxError]\<rparr>
     \<and> foldl (on_line parse showThinking fm) st (pre @ l # post)
       = (foldl (on_line parse showThinking fm) st (pre @ post))
           \<lparr>console := console (foldl (on_line parse showThinking fm) st pre)
                          @ SyntaxError # concat (map (logged parse fm) post)\<rparr>"
proof -
  assume asm: "startsWith l ''data: '' \<and> parse (drop 6 l) = None"
  define mid where "mid = foldl (on_line parse showThinking fm) st pre"
  from asm have one: "on_line parse showThinking fm st' l
      = st'\<lparr>console := console st' @ [SyntaxError]\<rparr>"
    for st' by (simp add: on_line_malformed)
  have "foldl (on_line parse showThinking fm) st (pre @ l # post)
      = foldl (on_line parse showThinking fm) (mid\<lparr>console := console mid @ [SyntaxError]\<rparr>) post"
    unfolding mid_def by (simp add: one)
  also have "\<dots> = (foldl (on_line parse showThinking fm) mid post)
         \<lparr>console := (console mid @ [SyntaxError]) @ concat (map (logged parse fm) post)\<rparr>"
    by (rule foldl_on_line_console)
  finally have "foldl (on_line parse showThinking fm) st (pre @ l # post)
      = (foldl (on_line parse showThinking fm) st (pre @ post))
         \<lparr>console := console mid @ SyntaxError # concat (map (logged parse fm) post)\<rparr>"
    unfolding mid_def by simp
  with one[of st] show ?thesis unfolding mid_def by blast
qed

theorem malformed_line_skipped_witness:
  "startsWith ''data: {bad'' ''data: '' \<and> JSON_parse (drop 6 ''data: {bad'') = None
   \<and> foldl (on_line JSON_parse True None) (start_state [])
        ([content_hi] @ ''data: {bad'' # [content_again, done_line])
     = \<lparr>buffer = [], thinkingBuffer = [], contentBuffer = ''Hi again'', inThinking = False,
        inAnswer = True, messages = [], pending = [AppendAssistant], currentThinking = [],
        currentContent = [], fileModified = [], console = [SyntaxError]\<rparr>"
proof -
  have h: "startsWith ''data: {bad'' ''data: '' \<and> JSON_parse (drop 6 ''data: {bad'') = None"
    by code_simp
  have v: "(foldl (on_line JSON_parse True None) (start_state [])
              ([content_hi] @ [content_again, done_line]))
           \<lparr>console := console (foldl (on_line JSON_parse True None) (start_state []) [content_hi])
                          @ SyntaxError
                            # concat (map (logged JSON_parse None) [content_again, done_line])\<rparr>
     = \<lparr>buffer = [], thinkingBuffer = [], contentBuffer = ''Hi again'', inThinking = False,
        inAnswer = True, messages = [], pending = [AppendAssistant], currentThinking = [],
        currentContent = [], fileModified = [], console = [SyntaxError]\<rparr>"
    by code_simp
  from malformed_line_skipped[where l = "''data: {bad''" and parse = JSON_parse
      and showThinking = True and fm = None and st = "start_state []" and pre = "[content_hi]"
      and post = "[content_again, done_line]", OF h]
  have "foldl (on_line JSON_parse True None) (start_state [])
        ([content_hi] @ ''data: {bad'' # [content_again, done_line])
     = (foldl (on_line JSON_parse True None) (start_state [])
              ([content_hi] @ [content_again, done_line]))
           \<lparr>console := console (foldl (on_line JSON_parse True None) (start_state []) [content_hi])
                          @ SyntaxError
                            # concat (map (logged JSON_parse None) [content_again, done_line])\<rparr>"
    by (rule conjunct2)
  with h v show ?thesis by (simp only:)
qed

subsection \<open>Tool calls\<close>




subsection \<open>The end of the transport\<close>

text \<open>When the transport ends, the consumer of the chat view keeps the unterminated
  line in its buffer and does nothing more: no error is synthesized, and nothing is
  finalized.  The reader of the chat API hands an unterminated last line to \<open>onChunk\<close>
  and reports completion.\<close>

theorem stream_end_counterexample:
  "read_loop JSON_parse True None (start_state []) [terminated [content_hi], content_again]
     = \<lparr>buffer = content_again, thinkingBuffer = [], contentBuffer = ''Hi'',
        inThinking = False, inAnswer = True, messages = [], pending = [],
        currentThinking = [], currentContent = ''Hi'', fileModified = [], console = []\<rparr>
   \<and> streamMessage quiet [terminated [''data: Hi''], ''data: par'']
     = [OnChunk ''Hi'', OnChunk ''par'', OnComplete]"
  by code_simp

text \<open>
  Claim C6, as the code has it.  When the transport ends, the consumer of the chat view
  discards the unterminated line it buffered and emits nothing: it ends in the state its
  complete lines lead to, the tail left in the buffer.  The reader of the chat API, when
  no callback throws, makes exactly one terminal call in every run: \<open>onComplete\<close> at the
  end of the transport when the lines of no chunk ended the function with a \<open>[DONE]\<close>
  or \<open>[ERROR]\<close> line, and nothing after such a line otherwise.
\<close>

theorem stream_end:
  "read_loop parse showThinking fm (start_state prev) chunks
     = (foldl (on_line parse showThinking fm) (start_state prev)
          (butlast (split_newline (concat chunks))))
       \<lparr>buffer := last (split_newline (concat chunks))\<rparr>
   \<and> (never_throws cb \<longrightarrow>
        filter terminal (streamMessage cb chunks) = [last (streamMessage cb chunks)])
   \<and> (never_throws cb \<and> (\<forall>c \<in> set chunks. snd (for_lines cb (split_newline c)) = Continues) \<longrightarrow>
        streamMessage cb chunks
          = concat (map (\<lambda>c. fst (for_lines cb (split_newline c))) chunks) @ [OnComplete])"
  using read_loop_lines[of parse showThinking fm prev chunks]
    filter_terminal_streamMessage[of cb chunks] streamMessage_no_sentinel[of cb chunks]
  by blast

theorem stream_end_witness:
  "read_loop JSON_parse True None (start_state []) [terminated [content_hi], content_again]
     = (foldl (on_line JSON_parse True None) (start_state []) [content_hi])
       \<lparr>buffer := content_again\<rparr>
   \<and> filter terminal (streamMessage quiet [terminated [''data: Hi''], terminated [''data: more'']])
     = [OnComplete]
   \<and> streamMessage quiet [terminated [''data: Hi''], terminated [''data: more'']]
     = [OnChunk ''Hi'', OnChunk ''more'', OnComplete]"
proof -
  have q: "never_throws quiet" by (simp add: never_throws_def)
  have s: "butlast (split_newline (concat [terminated [content_hi], content_again]))
      = [content_hi]
      \<and> last (split_newline (concat [terminated [content_hi], content_again])) = content_again"
    by code_simp
  have h: "\<forall>c \<in> set [terminated [''data: Hi''], terminated [''data: more'']].
      snd (for_lines quiet (split_newline c)) = Continues"
    by code_simp
  have v: "concat (map (\<lambda>c. fst (for_lines quiet (split_newline c)))
        [terminated [''data: Hi''], terminated [''data: more'']]) @ [OnComplete]
      = [OnChunk ''Hi'', OnChunk ''more'', OnComplete]"
    by code_simp
  from stream_end[of JSON_parse True None "[]" "[terminated [content_hi], content_again]" quiet]
  have a: "read_loop JSON_parse True None (start_state []) [terminated [content_hi], content_again]
     = (foldl (on_line JSON_parse True None) (start_state [])
          (butlast (split_newline (concat [terminated [content_hi], content_again]))))
       \<lparr>buffer := last (split_newline (concat [terminated [content_hi], content_again]))\<rparr>"
    by (rule conjunct1)
  note inst = stream_end[of JSON_parse True None "[]"
      "[terminated [''data: Hi''], terminated [''data: more'']]" quiet]
  from inst q h
  have b: "streamMessage quiet [terminated [''data: Hi''], terminated [''data: more'']]
      = concat (map (\<lambda>c. fst (for_lines quiet (split_newline c)))
        [terminated [''data: Hi''], terminated [''data: more'']]) @ [OnComplete]"
    by blast
  from inst q
  have c: "filter terminal (streamMessage quiet [terminated [''data: Hi''], terminated [''data: more'']])
      = [last (streamMessage quiet [terminated [''data: Hi''], terminated [''data: more'']])]"
    by blast
  from b v have b': "streamMessage quiet [terminated [''data: Hi''], terminated [''data: more'']]
      = [OnChunk ''Hi'', OnChunk ''more'', OnComplete]" by (simp only:)
  from c have c': "filter terminal
        (streamMessage quiet [terminated [''data: Hi''], terminated [''data: more'']])
      = [OnComplete]" unfolding b' by simp
  from a s have a': "read_loop JSON_parse True None (start_state [])
        [terminated [content_hi], content_again]
     = (foldl (on_line JSON_parse True None) (start_state []) [content_hi])
       \<lparr>buffer := content_again\<rparr>" by (simp only:)
  from a' b' c' show ?thesis by blast
qed

subsection \<open>Finalizing on done\<close>

text \<open>
  What a \<open>done\<close> event finalizes, in general.  Let the complete lines of the stream read
  so far be \<open>pre\<close>, a line \<open>d\<close> of type \<open>done\<close>, and the lines \<open>seen\<close> since.  Both
  buffers hold the concatenation, in order, of the texts of their events among all these
  lines, and the text of a string field is the string.  At \<open>d\<close> the \<open>done\<close> event queued
  the thinking message (when the thinking text of \<open>pre\<close> is not empty and thinking is
  shown) and the assistant message (when the content of \<open>pre\<close> is not empty).  An updater
  that React runs now appends a message with the text of \<open>pre\<close> followed by the text of
  \<open>seen\<close>; so the message has the text accumulated before \<open>done\<close> exactly when no text
  of its kind was decoded between the \<open>done\<close> and the moment React runs the updater,
  as it is when no such event follows the \<open>done\<close> in the stream at all.
\<close>

theorem done_finalizes:
  assumes "butlast (split_newline (concat chunks)) = pre @ d # seen"
    and "is_event parse ''done'' d"
  shows "thinkingBuffer (read_loop parse showThinking fm (start_state prev) chunks)
       = concat (map (delta parse ''thinking'') pre) @ concat (map (delta parse ''thinking'') seen)"
    and "contentBuffer (read_loop parse showThinking fm (start_state prev) chunks)
       = concat (map (delta parse ''content'') pre) @ concat (map (delta parse ''content'') seen)"
    and "pending (foldl (on_line parse showThinking fm) (start_state prev) (pre @ [d]))
       = pending (foldl (on_line parse showThinking fm) (start_state prev) pre)
         @ (if concat (map (delta parse ''thinking'') pre) \<noteq> [] \<and> showThinking
            then [AppendThinking] else [])
         @ (if concat (map (delta parse ''content'') pre) \<noteq> [] then [AppendAssistant] else [])"
    and "run_updater (read_loop parse showThinking fm (start_state prev) chunks) AppendThinking ms
       = ms @ [\<lparr>role = Thinking,
                 content = concat (map (delta parse ''thinking'') pre)
                           @ concat (map (delta parse ''thinking'') seen),
                 toolCall = None\<rparr>]"
    and "run_updater (read_loop parse showThinking fm (start_state prev) chunks) AppendAssistant ms
       = ms @ [\<lparr>role = Assistant,
                 content = concat (map (delta parse ''content'') pre)
                           @ concat (map (delta parse ''content'') seen),
                 toolCall = None\<rparr>]"
    and "messages (read_loop parse showThinking fm (start_state prev) chunks) = prev"
proof -
  let ?f = "on_line parse showThinking fm"
  have s0: "thinkingBuffer (start_state prev) = []" "contentBuffer (start_state prev) = []"
    "messages (start_state prev) = prev"
    by (simp_all add: start_state_def)
  have dT: "delta parse ''thinking'' d = []" and dC: "delta parse ''content'' d = []"
    using assms(2) by (auto simp: delta_def is_event_def split: option.splits)
  have now: "read_loop parse showThinking fm (start_state prev) chunks
      = (foldl ?f (start_state prev) (pre @ d # seen))
          \<lparr>buffer := last (split_newline (concat chunks))\<rparr>"
    using assms(1) by (simp only: read_loop_lines)
  show tb: "thinkingBuffer (read_loop parse showThinking fm (start_state prev) chunks)
       = concat (map (delta parse ''thinking'') pre) @ concat (map (delta parse ''thinking'') seen)"
    unfolding now by (simp add: thinkingBuffer_foldl thinkingBuffer_on_line s0 dT)
  show cb: "contentBuffer (read_loop parse showThinking fm (start_state prev) chunks)
       = concat (map (delta parse ''content'') pre) @ concat (map (delta parse ''content'') seen)"
    unfolding now by (simp add: contentBuffer_foldl contentBuffer_on_line s0 dC)
  have "foldl ?f (start_state prev) (pre @ [d])
      = on_done showThinking (foldl ?f (start_state prev) pre)"
    using on_line_done[OF assms(2)] by simp
  then show "pending (foldl ?f (start_state prev) (pre @ [d]))
       = pending (foldl ?f (start_state prev) pre)
         @ (if concat (map (delta parse ''thinking'') pre) \<noteq> [] \<and> showThinking
            then [AppendThinking] else [])
         @ (if concat (map (delta parse ''content'') pre) \<noteq> [] then [AppendAssistant] else [])"
    by (simp add: on_done_def thinkingBuffer_foldl contentBuffer_foldl s0)
  show "run_updater (read_loop parse showThinking fm (start_state prev) chunks) AppendThinking ms
       = ms @ [\<lparr>role = Thinking,
                 content = concat (map (delta parse ''thinking'') pre)
                           @ concat (map (delta parse ''thinking'') seen),
                 toolCall = None\<rparr>]"
    by (simp add: run_updater_def tb)
  show "run_updater (read_loop parse showThinking fm (start_state prev) chunks) AppendAssistant ms
       = ms @ [\<lparr>role = Assistant,
                 content = concat (map (delta parse ''content'') pre)
                           @ concat (map (delta parse ''content'') seen),
                 toolCall = None\<rparr>]"
    by (simp add: run_updater_def cb)
  show "messages (read_loop parse showThinking fm (start_state prev) chunks) = prev"
    unfolding now by (simp add: messages_foldl messages_on_line s0)
qed

text \<open>The text of an event whose \<open>content\<close> is a string is that string.\<close>

theorem delta_string:
  assumes "startsWith l ''data: ''" "parse (drop 6 l) = Some data"
    "get_prop data ''type'' = Some (JStr ty)" "get_prop data ''content'' = Some (JStr s)"
  shows "delta parse ty l = s"
  using assms by (simp add: delta_def is_event_def to_string_def)

text \<open>Three chunks that cut the lines at arbitrary places, with the blank lines of an
  event stream between the events: one thinking event, two content events and \<open>done\<close>.
  Nothing of their kind follows the \<open>done\<close>, and whenever React runs the two updaters
  the messages are the thinking \<open>Hm\<close> and the answer \<open>Hello, world\<close>.  A thinking event
  alone sets the flag and the live text; and when thinking is not shown, \<open>done\<close> queues
  the assistant message only.\<close>

theorem done_finalizes_example:
  "react 2 (read_loop JSON_parse True None (start_state [])
       [''data: {\"type\":\"thinking\",\"content\":\"Hm\"}\<newline>\<newline>da'',
        ''ta: {\"type\":\"content\",\"content\":\"Hello\"}\<newline>\<newline>data: {\"type\":\"content\",'',
        ''\"content\":\", world\"}\<newline>\<newline>data: {\"type\":\"done\"}\<newline>\<newline>''])
     = \<lparr>buffer = [], thinkingBuffer = ''Hm'', contentBuffer = ''Hello, world'',
        inThinking = False, inAnswer = True,
        messages = [\<lparr>role = Thinking, content = ''Hm'', toolCall = None\<rparr>,
                    \<lparr>role = Assistant, content = ''Hello, world'', toolCall = None\<rparr>],
        pending = [], currentThinking = [], currentContent = [], fileModified = [],
        console = []\<rparr>
   \<and> read_loop JSON_parse True None (start_state []) [terminated [thinking_hm]]
     = \<lparr>buffer = [], thinkingBuffer = ''Hm'', contentBuffer = [], inThinking = True,
        inAnswer = False, messages = [], pending = [], currentThinking = ''Hm'',
        currentContent = [], fileModified = [], console = []\<rparr>
   \<and> react 1 (read_loop JSON_parse False None (start_state [])
       [terminated [thinking_hm, content_hi, done_line]])
     = \<lparr>buffer = [], thinkingBuffer = ''Hm'', contentBuffer = ''Hi'', inThinking = False,
        inAnswer = True, messages = [assistant_message ''Hi''], pending = [],
        currentThinking = [], currentContent = [], fileModified = [], console = []\<rparr>"
  by code_simp

text \<open>
  Claim C7.  The claim holds of the buffers, and of the messages whenever React runs the
  updaters of \<open>done\<close> before more text of their kind is decoded.  It fails on a stream
  that goes on after \<open>done\<close>: the loop does not leave at \<open>done\<close>, and the updater it
  queued reads \<open>contentBuffer\<close> when React runs it, not when \<open>done\<close> arrived.  With the
  lines \<open>Hi\<close>, \<open>done\<close> and \<open> again\<close> in one chunk, the content decoded before \<open>done\<close>
  is \<open>Hi\<close>, which is the message React appends if it renders right after the \<open>done\<close>
  line; rendering after the chunk, as it does when it batches the updates of a task, it
  appends \<open>Hi again\<close>.
\<close>

theorem done_reads_buffer_late:
  "concat (map (delta JSON_parse ''content'') [content_hi]) = ''Hi''
   \<and> react 1 (foldl (on_line JSON_parse True None) (start_state []) [content_hi, done_line])
     = \<lparr>buffer = [], thinkingBuffer = [], contentBuffer = ''Hi'', inThinking = False,
        inAnswer = True, messages = [assistant_message ''Hi''], pending = [],
        currentThinking = [], currentContent = [], fileModified = [], console = []\<rparr>
   \<and> read_loop JSON_parse True None (start_state [])
       [terminated [content_hi, done_line, content_again]]
     = \<lparr>buffer = [], thinkingBuffer = [], contentBuffer = ''Hi again'', inThinking = False,
        inAnswer = True, messages = [], pending = [AppendAssistant],
        currentThinking = [], currentContent = ''Hi again'', fileModified = [], console = []\<rparr>
   \<and> react 1 (read_loop JSON_parse True None (start_state [])
       [terminated [content_hi, done_line, content_again]])
     = \<lparr>buffer = [], thinkingBuffer = [], contentBuffer = ''Hi again'', inThinking = False,
        inAnswer = True, messages = [assistant_message ''Hi again''], pending = [],
        currentThinking = [], currentContent = ''Hi again'', fileModified = [], console = []\<rparr>"
  by code_simp


end
